theory Spec2Isabelle
  imports Main "HOL-Library.AList" "HOL-Library.Sublist"
begin

section \<open>Values held by the option store\<close>

text \<open>
  The store keeps Go values of type \<^verbatim>\<open>interface{}\<close>. The kinds that the store's own code
  tells apart are modelled: the untyped nil, booleans, integers, strings, values of a
  named string type (\<^verbatim>\<open>type Level string\<close>, without methods: the name of the type and the
  content), the three slice types that the accessors test for by type assertion
  (\<^verbatim>\<open>[]string\<close>, \<^verbatim>\<open>[]int\<close>, \<^verbatim>\<open>[]byte\<close>), any other slice (taken element by element through
  reflection), maps keyed by strings and maps keyed by arbitrary values. A Go map is a
  list of pairs whose order is the order in which \<^verbatim>\<open>range\<close> happens to enumerate it; a map
  as Go has it never holds a key twice. The key of a map keyed by arbitrary values is
  hashable, so it is never a slice or a map: it is nil, a boolean, an integer, a string or a
  value of a named string type. Floating-point values, structs and pointers are left out
  of the model.
\<close>

datatype mkey =
    KNil
  | KBool bool
  | KInt int
  | KStr string
  | KNamed string string

datatype val =
    VNil
  | VBool bool
  | VInt int
  | VStr string
  | VNamed string string
  | VStrs "string list"
  | VInts "int list"
  | VBytes "char list"
  | VList "val list"
  | VMap "(string \<times> val) list"
  | VIxMap "(mkey \<times> val) list"

text \<open>
  The result of \<^verbatim>\<open>reflect.ValueOf(v).Kind()\<close>, as far as the accessors switch on it. A value
  of a named string type has the kind \<^verbatim>\<open>reflect.String\<close>.
\<close>

datatype kind = KString | KSlice | KOther

fun kindOf :: "val \<Rightarrow> kind" where
  "kindOf (VStr s) = KString"
| "kindOf (VNamed t s) = KString"
| "kindOf (VStrs xs) = KSlice"
| "kindOf (VInts xs) = KSlice"
| "kindOf (VBytes bs) = KSlice"
| "kindOf (VList xs) = KSlice"
| "kindOf v = KOther"

fun isStrMap :: "val \<Rightarrow> bool" where
  "isStrMap (VMap m) = True"
| "isStrMap v = False"

text \<open>What can go wrong at run time in the code at hand.\<close>

datatype panic = InterfaceConversion | SliceBoundsOutOfRange

section \<open>Library functions the store calls\<close>

subsection \<open>strings\<close>

text \<open>\<^verbatim>\<open>strings.Split(s, sep)\<close> for a separator of one byte: never an empty result.\<close>

fun split_on :: "char \<Rightarrow> string \<Rightarrow> string list" where
  "split_on c [] = [[]]"
| "split_on c (x # xs) =
     (if x = c then [] # split_on c xs
      else (case split_on c xs of [] \<Rightarrow> [[x]] | h # t \<Rightarrow> (x # h) # t))"

text \<open>\<^verbatim>\<open>strings.Join(xs, sep)\<close>.\<close>

fun join :: "string \<Rightarrow> string list \<Rightarrow> string" where
  "join sep [] = []"
| "join sep [x] = x"
| "join sep (x # y # ys) = x @ sep @ join sep (y # ys)"

text \<open>
  \<^verbatim>\<open>strings.ToLower\<close> and \<^verbatim>\<open>strings.ToUpper\<close>. On a string of ASCII bytes the library maps
  the letters byte by byte. On any other string it decodes UTF-8 and maps every rune
  through the Unicode tables (\<^verbatim>\<open>strings.Map(unicode.ToLower, s)\<close>, which for instance turns
  the Kelvin sign into \<^verbatim>\<open>k\<close>); that function of the library is the parameter \<open>uni\<close>.
\<close>

definition isASCII :: "char \<Rightarrow> bool" where
  "isASCII c = ((of_char c :: nat) < 128)"

definition lowerChar :: "char \<Rightarrow> char" where
  "lowerChar c =
     (let n = (of_char c :: nat) in if 65 \<le> n \<and> n \<le> 90 then char_of (n + 32) else c)"

definition upperChar :: "char \<Rightarrow> char" where
  "upperChar c =
     (let n = (of_char c :: nat) in if 97 \<le> n \<and> n \<le> 122 then char_of (n - 32) else c)"

definition ToLower :: "(string \<Rightarrow> string) \<Rightarrow> string \<Rightarrow> string" where
  "ToLower uni s = (if list_all isASCII s then map lowerChar s else uni s)"

definition ToUpper :: "(string \<Rightarrow> string) \<Rightarrow> string \<Rightarrow> string" where
  "ToUpper uni s = (if list_all isASCII s then map upperChar s else uni s)"

text \<open>\<^verbatim>\<open>strings.ReplaceAll(s, old, new)\<close> for \<^verbatim>\<open>old\<close> and \<^verbatim>\<open>new\<close> of one byte each.\<close>

definition ReplaceAll :: "string \<Rightarrow> char \<Rightarrow> char \<Rightarrow> string" where
  "ReplaceAll s old new = map (\<lambda>c. if c = old then new else c) s"

text \<open>\<^verbatim>\<open>strings.HasPrefix(s, p)\<close>.\<close>

definition HasPrefix :: "string \<Rightarrow> string \<Rightarrow> bool" where
  "HasPrefix s p = (take (length p) s = p)"

subsection \<open>strconv and fmt\<close>

fun digits :: "nat \<Rightarrow> string" where
  "digits n =
     (if n < 10 then [''0123456789'' ! n]
      else digits (n div 10) @ [''0123456789'' ! (n mod 10)])"

text \<open>\<^verbatim>\<open>strconv.Itoa\<close>.\<close>

definition Itoa :: "int \<Rightarrow> string" where
  "Itoa i = (if i < 0 then CHR ''-'' # digits (nat (- i)) else digits (nat i))"




text \<open>
  \<^verbatim>\<open>fmt\<close> prints a map with its keys sorted. Strings are ordered byte-wise. The keys of a
  map keyed by arbitrary values are ordered as \<^verbatim>\<open>internal/fmtsort\<close> orders interface values:
  nil first, then by dynamic type, then by value within one type (false before true,
  integers by size, strings byte-wise). The order between two dynamic types is the order of
  the addresses of their type descriptors, which the language does not fix; it is the
  parameter \<open>rank\<close>.
\<close>

fun strLess :: "string \<Rightarrow> string \<Rightarrow> bool" where
  "strLess xs [] = False"
| "strLess [] (y # ys) = True"
| "strLess (x # xs) (y # ys) =
     ((of_char x :: nat) < of_char y \<or> (x = y \<and> strLess xs ys))"

datatype gotype = TBool | TInt | TString | TNamed string

fun sameTypeLess :: "mkey \<Rightarrow> mkey \<Rightarrow> bool" where
  "sameTypeLess (KBool x) (KBool y) = (\<not> x \<and> y)"
| "sameTypeLess (KInt x) (KInt y) = (x < y)"
| "sameTypeLess (KStr x) (KStr y) = strLess x y"
| "sameTypeLess (KNamed t x) (KNamed u y) = strLess x y"
| "sameTypeLess a b = False"

fun typeOfKey :: "mkey \<Rightarrow> gotype option" where
  "typeOfKey KNil = None"
| "typeOfKey (KBool x) = Some TBool"
| "typeOfKey (KInt x) = Some TInt"
| "typeOfKey (KStr x) = Some TString"
| "typeOfKey (KNamed t x) = Some (TNamed t)"

definition keyLess :: "(gotype \<Rightarrow> nat) \<Rightarrow> mkey \<Rightarrow> mkey \<Rightarrow> bool" where
  "keyLess rank a b =
     (case typeOfKey a of
        None \<Rightarrow> typeOfKey b \<noteq> None
      | Some ta \<Rightarrow>
          (case typeOfKey b of
             None \<Rightarrow> False
           | Some tb \<Rightarrow>
               if rank ta < rank tb then True
               else if rank tb < rank ta then False
               else sameTypeLess a b))"

text \<open>A stable sort of printed entries by their keys, as \<^verbatim>\<open>sort.Stable\<close> gives it.\<close>

fun insertBy :: "('k \<Rightarrow> 'k \<Rightarrow> bool) \<Rightarrow> 'k \<times> string \<Rightarrow> ('k \<times> string) list \<Rightarrow> ('k \<times> string) list" where
  "insertBy lt p [] = [p]"
| "insertBy lt p (q # qs) =
     (if lt (fst q) (fst p) then q # insertBy lt p qs else p # q # qs)"

definition sortBy :: "('k \<Rightarrow> 'k \<Rightarrow> bool) \<Rightarrow> ('k \<times> string) list \<Rightarrow> ('k \<times> string) list" where
  "sortBy lt ps = foldr (insertBy lt) ps []"

definition bracket :: "string list \<Rightarrow> string" where
  "bracket xs = ''['' @ join '' '' xs @ '']''"

definition showEntry :: "string \<times> string \<Rightarrow> string" where
  "showEntry p = fst p @ '':'' @ snd p"

text \<open>\<^verbatim>\<open>fmt.Sprintf("%v", k)\<close> for a key, and for any value.\<close>

fun sprintk :: "mkey \<Rightarrow> string" where
  "sprintk KNil = ''<nil>''"
| "sprintk (KBool b) = (if b then ''true'' else ''false'')"
| "sprintk (KInt i) = Itoa i"
| "sprintk (KStr s) = s"
| "sprintk (KNamed t s) = s"

fun sprintv :: "(gotype \<Rightarrow> nat) \<Rightarrow> val \<Rightarrow> string" where
  "sprintv rank VNil = ''<nil>''"
| "sprintv rank (VBool b) = (if b then ''true'' else ''false'')"
| "sprintv rank (VInt i) = Itoa i"
| "sprintv rank (VStr s) = s"
| "sprintv rank (VNamed t s) = s"
| "sprintv rank (VStrs xs) = bracket xs"
| "sprintv rank (VInts xs) = bracket (map Itoa xs)"
| "sprintv rank (VBytes bs) = bracket (map (\<lambda>b. Itoa (int (of_char b))) bs)"
| "sprintv rank (VList xs) = bracket (map (sprintv rank) xs)"
| "sprintv rank (VMap m) =
     ''map'' @ bracket (map showEntry
        (sortBy strLess (map (\<lambda>kv. (fst kv, sprintv rank (snd kv))) m)))"
| "sprintv rank (VIxMap m) =
     ''map'' @ bracket (map (\<lambda>p. showEntry (sprintk (fst p), snd p))
        (sortBy (keyLess rank) (map (\<lambda>kv. (fst kv, sprintv rank (snd kv))) m)))"

section \<open>The store\<close>

text \<open>
  \<^verbatim>\<open>Options\<close> holds the flat map \<^verbatim>\<open>entries\<close> and the nested map \<^verbatim>\<open>hierarchy\<close>; the lock
  \<^verbatim>\<open>rw\<close> has no sequential content. The flat map is a partial function (where the code
  enumerates it, the keys come as a list); the tree is a list of pairs. The maps of the tree
  are values here, while Go shares them by reference: the model is exact as long as no
  map object stored as a value is also a node of the tree.

  The package variables \<^verbatim>\<open>RxxtPrefix\<close> and \<^verbatim>\<open>EnvPrefix\<close> are declared outside the files at
  hand; functions that read them take them as the parameters \<open>rp\<close> and \<open>ep\<close>.
\<close>

record options =
  entries :: "string \<rightharpoonup> val"
  hierarchy :: "(string \<times> val) list"

definition NewOptions :: options where
  "NewOptions = \<lparr>entries = Map.empty, hierarchy = []\<rparr>"

definition Get :: "options \<Rightarrow> string \<Rightarrow> val" where
  "Get s key = (case entries s key of None \<Rightarrow> VNil | Some v \<Rightarrow> v)"

text \<open>\<open>None\<close> is the nil map.\<close>

fun getMap :: "(string \<times> val) list \<Rightarrow> string \<Rightarrow> string list \<Rightarrow> (string \<times> val) list option" where
  "getMap vp key (r # rs) =
     (case map_of vp key of
        Some (VMap vm) \<Rightarrow> getMap vm r rs
      | _ \<Rightarrow> None)"
| "getMap vp key [] =
     (case map_of vp key of
        Some (VMap vm) \<Rightarrow> Some vm
      | Some _ \<Rightarrow> Some vp
      | None \<Rightarrow> None)"

definition getMapNoLock :: "options \<Rightarrow> string \<Rightarrow> (string \<times> val) list option" where
  "getMapNoLock s key =
     (let a = split_on CHR ''.'' key
      in if length a > 0 then getMap (hierarchy s) (a ! 0) (drop 1 a) else None)"

definition GetMap :: "options \<Rightarrow> string \<Rightarrow> (string \<times> val) list option" where
  "GetMap s key = getMapNoLock s key"

definition GetHierarchyList :: "options \<Rightarrow> (string \<times> val) list" where
  "GetHierarchyList s = hierarchy s"

definition wrapWithRxxtPrefix :: "string list \<Rightarrow> string \<Rightarrow> string" where
  "wrapWithRxxtPrefix rp key =
     (if length rp = 0 then key
      else let p = join ''.'' rp
           in if length key = 0 then p else p @ ''.'' @ key)"

definition GetMapR :: "string list \<Rightarrow> options \<Rightarrow> string \<Rightarrow> (string \<times> val) list option" where
  "GetMapR rp s key = GetMap s (wrapWithRxxtPrefix rp key)"

subsection \<open>Typed accessors\<close>

text \<open>
  In the case \<^verbatim>\<open>reflect.String\<close> the accessors assert \<^verbatim>\<open>v.(string)\<close>. The assertion holds
  for a string and panics for a value of a named string type, whose kind is
  \<^verbatim>\<open>reflect.String\<close> as well; \<open>Inl\<close> is the panic.
\<close>

definition GetString :: "(gotype \<Rightarrow> nat) \<Rightarrow> options \<Rightarrow> string \<Rightarrow> panic + string" where
  "GetString rank s key =
     (case entries s key of
        None \<Rightarrow> Inr []
      | Some v \<Rightarrow>
          (case kindOf v of
             KString \<Rightarrow> (case v of VStr x \<Rightarrow> Inr x | _ \<Rightarrow> Inl InterfaceConversion)
           | _ \<Rightarrow> if v \<noteq> VNil then Inr (sprintv rank v) else Inr []))"

definition GetBool ::
  "(string \<Rightarrow> string) \<Rightarrow> (gotype \<Rightarrow> nat) \<Rightarrow> options \<Rightarrow> string \<Rightarrow> panic + bool" where
  "GetBool uni rank s key =
     (case GetString rank s key of
        Inl e \<Rightarrow> Inl e
      | Inr str \<Rightarrow>
          Inr (ToLower uni str \<in> set [''1'', ''y'', ''t'', ''yes'', ''true'', ''ok'', ''on'']))"





subsection \<open>Writing\<close>

text \<open>
  \<^verbatim>\<open>et(keys, ix, val)\<close> wraps \<^verbatim>\<open>val\<close> in one single-entry map for each key from index
  \<^verbatim>\<open>ix\<close> on; the comparison \<^verbatim>\<open>ix <= len(keys)-1\<close> is on signed integers.
\<close>

function et :: "string list \<Rightarrow> nat \<Rightarrow> val \<Rightarrow> val" where
  "et keys ix v =
     (if int ix \<le> int (length keys) - 1 then VMap [(keys ! ix, et keys (ix + 1) v)] else v)"
  by pat_completeness auto
termination
  by (relation "measure (\<lambda>(keys, ix, v). length keys - ix)") auto

text \<open>
  \<^verbatim>\<open>mergeMap\<close> writes into the map it is given; the model returns the map written. The
  inner loop runs over the incoming map in its enumeration order.
\<close>

function mergeMap :: "(string \<times> val) list \<Rightarrow> string \<Rightarrow> val \<Rightarrow> (string \<times> val) list" where
  "mergeMap m key v =
     (case map_of m key of
        Some z \<Rightarrow>
          (case z of
             VMap zm \<Rightarrow>
               (case v of
                  VMap vm \<Rightarrow>
                    AList.update key
                      (VMap (fold (\<lambda>kv zm'. mergeMap zm' (fst kv) (snd kv)) vm zm)) m
                | _ \<Rightarrow> AList.update key v m)
           | _ \<Rightarrow> AList.update key v m)
      | None \<Rightarrow> AList.update key v m)"
  by pat_completeness auto
termination
proof (relation "measure (\<lambda>(m, key, v). size v)")
  show "wf (measure (\<lambda>(m, key, v). size v))" by simp
next
  fix m :: "(string \<times> val) list" and key :: string and v z :: val
    and zm vm :: "(string \<times> val) list" and kv :: "string \<times> val" and zm' :: "(string \<times> val) list"
  assume v: "v = VMap vm" and kv: "kv \<in> set vm"
  have "kv \<in> set xs \<Longrightarrow> size (snd kv) < size (VMap xs)" for xs
    by (induction xs) auto
  with v kv have "size (snd kv) < size v"
    by simp
  then show "((zm', fst kv, snd kv), (m, key, v)) \<in> measure (\<lambda>(m, key, v). size v)"
    by (simp add: case_prod_beta)
qed

text \<open>
  \<^verbatim>\<open>SetNx\<close> compares the value with the untyped nil. It reads \<^verbatim>\<open>a[0]\<close> without a check;
  \<^verbatim>\<open>strings.Split\<close> with a non-empty separator returns at least one element (lemma
  \<open>split_on_nonempty\<close> below), so the index is in range.
\<close>

definition SetNx :: "string \<Rightarrow> val \<Rightarrow> options \<Rightarrow> options" where
  "SetNx key v s =
     (if v = VNil \<and> getMapNoLock s key \<noteq> None then s
      else let a = split_on CHR ''.'' key
           in s\<lparr>entries := (entries s)(key \<mapsto> v),
                hierarchy := mergeMap (hierarchy s) (a ! 0) (et a 1 v)\<rparr>)"

definition Set :: "string list \<Rightarrow> string \<Rightarrow> val \<Rightarrow> options \<Rightarrow> options" where
  "Set rp key v s = SetNx (wrapWithRxxtPrefix rp key) v s"

text \<open>
  \<^verbatim>\<open>Reset\<close> sets \<^verbatim>\<open>entries\<close> to nil, sleeps, and then to a new empty map; the pause has no
  effect on the state.
\<close>

definition Reset :: "options \<Rightarrow> options" where
  "Reset s = s\<lparr>entries := Map.empty\<rparr>"

subsection \<open>Ingesting a decoded document\<close>

definition mx :: "string \<Rightarrow> string \<Rightarrow> string" where
  "mx pre k = (if length pre = 0 then k else pre @ ''.'' @ k)"

definition mxIx :: "string \<Rightarrow> mkey \<Rightarrow> string" where
  "mxIx pre k = (if length pre = 0 then sprintk k else pre @ ''.'' @ sprintk k)"

text \<open>
  The loops run over the document in its enumeration order. Their error result is nil on
  every path, so the model returns the store alone.
\<close>

fun loopMap :: "string \<Rightarrow> (string \<times> val) list \<Rightarrow> options \<Rightarrow> options"
  and loopIxMap :: "string \<Rightarrow> (mkey \<times> val) list \<Rightarrow> options \<Rightarrow> options" where
  "loopMap kdot [] s = s"
| "loopMap kdot ((k, v) # m) s =
     loopMap kdot m
       (case v of
          VIxMap vm \<Rightarrow> loopIxMap (mx kdot k) vm s
        | VMap vm \<Rightarrow> loopMap (mx kdot k) vm s
        | _ \<Rightarrow> SetNx (mx kdot k) v s)"
| "loopIxMap kdot [] s = s"
| "loopIxMap kdot ((k, v) # m) s =
     loopIxMap kdot m
       (case v of
          VIxMap vm \<Rightarrow> loopIxMap (mxIx kdot k) vm s
        | _ \<Rightarrow> SetNx (mxIx kdot k) v s)"

fun loopMapMap :: "string \<Rightarrow> (string \<times> (string \<times> val) list) list \<Rightarrow> options \<Rightarrow> options" where
  "loopMapMap kdot [] s = s"
| "loopMapMap kdot ((k, v) # m) s = loopMapMap kdot m (loopMap (mx kdot k) v s)"

subsection \<open>Environment overlay\<close>

definition envKey :: "(string \<Rightarrow> string) \<Rightarrow> string list \<Rightarrow> string \<Rightarrow> string" where
  "envKey uni ep key =
     (let key1 = ReplaceAll key CHR ''.'' CHR ''_'';
          key2 = ReplaceAll key1 CHR ''-'' CHR ''_''
      in join ''_'' (ep @ [ToUpper uni key2]))"

text \<open>
  Slicing \<^verbatim>\<open>key[len(p)+1:]\<close> panics when the key is shorter than the bound; \<open>Inl\<close> is
  the panic. The process environment is the partial function \<open>env\<close>
  (\<^verbatim>\<open>os.LookupEnv\<close>).
\<close>

definition overlayKey ::
  "(string \<Rightarrow> string) \<Rightarrow> string list \<Rightarrow> string list \<Rightarrow> (string \<rightharpoonup> string) \<Rightarrow>
   string \<Rightarrow> options \<Rightarrow> panic + options" where
  "overlayKey uni rp ep env key s =
     (let p = join ''.'' rp; ek = envKey uni ep key
      in case env ek of
           Some v \<Rightarrow>
             if HasPrefix key p then
               (if length p + 1 \<le> length key
                then Inr (Set rp (drop (length p + 1) key) (VStr v) s)
                else Inl SliceBoundsOutOfRange)
             else Inr (Set rp key (VStr v) s)
         | None \<Rightarrow> Inr s)"

text \<open>
  \<^verbatim>\<open>buildAutomaticEnv\<close> ranges over \<^verbatim>\<open>s.entries\<close> while writing to it; \<open>ks\<close> is the
  sequence of keys the \<^verbatim>\<open>range\<close> produces.
\<close>

fun buildAutomaticEnv ::
  "(string \<Rightarrow> string) \<Rightarrow> string list \<Rightarrow> string list \<Rightarrow> (string \<rightharpoonup> string) \<Rightarrow>
   string list \<Rightarrow> options \<Rightarrow> panic + options" where
  "buildAutomaticEnv uni rp ep env [] s = Inr s"
| "buildAutomaticEnv uni rp ep env (key # ks) s =
     (case overlayKey uni rp ep env key s of
        Inl e \<Rightarrow> Inl e
      | Inr s' \<Rightarrow> buildAutomaticEnv uni rp ep env ks s')"

subsection \<open>Loading a section into a structure\<close>

text \<open>
  \<^verbatim>\<open>yaml.Marshal\<close> and \<^verbatim>\<open>yaml.Unmarshal\<close> belong to a library and are parameters. The
  result is the error (\<open>None\<close> is nil) and the holder as the call leaves it.
\<close>

definition GetSectionFrom ::
  "((string \<times> val) list \<Rightarrow> 'e + 'b) \<Rightarrow> ('b \<Rightarrow> 'h \<Rightarrow> 'e option \<times> 'h) \<Rightarrow>
   string list \<Rightarrow> options \<Rightarrow> string \<Rightarrow> 'h \<Rightarrow> 'e option \<times> 'h" where
  "GetSectionFrom marshal unmarshal rp s sectionKeyPath holder =
     (case GetMapR rp s sectionKeyPath of
        None \<Rightarrow> (None, holder)
      | Some fObj \<Rightarrow>
          (case marshal fObj of
             Inl err \<Rightarrow> (Some err, holder)
           | Inr b \<Rightarrow> unmarshal b holder))"

subsection \<open>Notions used to state the properties\<close>

text \<open>
  The fragment that \<^verbatim>\<open>et\<close> builds, by recursion on the keys that remain.
\<close>

fun nest :: "string list \<Rightarrow> val \<Rightarrow> val" where
  "nest [] v = v"
| "nest (k # ks) v = VMap [(k, nest ks v)]"

text \<open>
  Descending from a value through the segments of a path; \<open>descend\<close> starts from the
  tree. \<open>leafAt\<close> is the value found when it is a leaf, that is, not a map keyed by strings.
\<close>

fun reach :: "val \<Rightarrow> string list \<Rightarrow> val option" where
  "reach v [] = Some v"
| "reach (VMap m) (k # ks) = (case map_of m k of None \<Rightarrow> None | Some v \<Rightarrow> reach v ks)"
| "reach v (k # ks) = None"

definition descend :: "(string \<times> val) list \<Rightarrow> string list \<Rightarrow> val option" where
  "descend m path = reach (VMap m) path"

definition leafOf :: "val \<Rightarrow> string list \<Rightarrow> val option" where
  "leafOf v path =
     (case reach v path of None \<Rightarrow> None | Some x \<Rightarrow> if isStrMap x then None else Some x)"

definition leafAt :: "(string \<times> val) list \<Rightarrow> string list \<Rightarrow> val option" where
  "leafAt m path = leafOf (VMap m) path"

text \<open>
  The segments of a key, as \<^verbatim>\<open>SetNx\<close> and \<^verbatim>\<open>getMapNoLock\<close> split it. Two keys conflict when
  the segments of one are a proper prefix of the segments of the other. A path is dot-free
  when it is not empty and none of its segments holds a dot.
\<close>

definition segments :: "string \<Rightarrow> string list" where
  "segments key = split_on CHR ''.'' key"

definition conflict :: "string \<Rightarrow> string \<Rightarrow> bool" where
  "conflict k1 k2 \<longleftrightarrow>
     strict_prefix (segments k1) (segments k2) \<or> strict_prefix (segments k2) (segments k1)"

definition dotfree :: "string list \<Rightarrow> bool" where
  "dotfree q \<longleftrightarrow> q \<noteq> [] \<and> (\<forall>x \<in> set q. CHR ''.'' \<notin> set x)"

text \<open>The tree mirrors the flat map: its leaves are the flat entries, path by path.\<close>

definition mirrored :: "options \<Rightarrow> bool" where
  "mirrored s \<longleftrightarrow>
     (\<forall>q. leafAt (hierarchy s) q = (if dotfree q then entries s (join ''.'' q) else None))"

text \<open>A sequence of calls of \<^verbatim>\<open>Set\<close> and \<^verbatim>\<open>SetNx\<close>, the key each one writes, and its value.\<close>

datatype setop = OpSet string val | OpSetNx string val

fun applyOp :: "string list \<Rightarrow> setop \<Rightarrow> options \<Rightarrow> options" where
  "applyOp rp (OpSet key v) s = Set rp key v s"
| "applyOp rp (OpSetNx key v) s = SetNx key v s"

fun runOps :: "string list \<Rightarrow> setop list \<Rightarrow> options \<Rightarrow> options" where
  "runOps rp [] s = s"
| "runOps rp (x # xs) s = runOps rp xs (applyOp rp x s)"

fun opKey :: "string list \<Rightarrow> setop \<Rightarrow> string" where
  "opKey rp (OpSet key v) = wrapWithRxxtPrefix rp key"
| "opKey rp (OpSetNx key v) = key"

fun opVal :: "setop \<Rightarrow> val" where
  "opVal (OpSet key v) = v"
| "opVal (OpSetNx key v) = v"

text \<open>A value whose maps keyed by strings hold no key twice, at any depth.\<close>

fun distinctKeys :: "val \<Rightarrow> bool" where
  "distinctKeys (VMap m) = (distinct (map fst m) \<and> list_all (\<lambda>kv. distinctKeys (snd kv)) m)"
| "distinctKeys v = True"

text \<open>The inner loop of \<^verbatim>\<open>mergeMap\<close>: every entry of the incoming map merged into \<open>zm\<close>.\<close>

definition mergeAll :: "(string \<times> val) list \<Rightarrow> (string \<times> val) list \<Rightarrow> (string \<times> val) list" where
  "mergeAll vm zm = fold (\<lambda>kv zm'. mergeMap zm' (fst kv) (snd kv)) vm zm"


text \<open>The strings that \<^verbatim>\<open>GetBool\<close> takes for true.\<close>

definition truthy :: "string list" where
  "truthy = [''1'', ''y'', ''t'', ''yes'', ''true'', ''ok'', ''on'']"

text \<open>The string form of a stored value: nil is the empty string, any other value its \<^verbatim>\<open>%v\<close> form.\<close>

definition stringForm :: "(gotype \<Rightarrow> nat) \<Rightarrow> val \<Rightarrow> string" where
  "stringForm rank v = (if v = VNil then [] else sprintv rank v)"





text \<open>
  The name of the environment variable in the specification's words: dots and dashes
  become underscores, the result is upper-cased and joined to the prefix segments.
\<close>

definition envNameBySpec :: "(string \<Rightarrow> string) \<Rightarrow> string list \<Rightarrow> string \<Rightarrow> string" where
  "envNameBySpec uni ep key =
     join ''_''
       (ep @ [ToUpper uni (map (\<lambda>c. if c = CHR ''.'' \<or> c = CHR ''-'' then CHR ''_'' else c) key)])"

text \<open>A key that is the dotted prefix, a dot, and a non-empty rest.\<close>

definition underPrefix :: "string list \<Rightarrow> string \<Rightarrow> bool" where
  "underPrefix rp key \<longleftrightarrow>
     length (join ''.'' rp) + 1 < length key \<and>
     take (length (join ''.'' rp) + 1) key = join ''.'' rp @ ''.''"

text \<open>
  The key at which the overlay writes the variable of a key: the key is sliced when it
  begins with the dotted prefix, and \<^verbatim>\<open>Set\<close> then wraps it with the prefix again. The
  write of the value \<open>w\<close> for the key \<open>k\<close> is harmless for \<open>key\<close> and \<open>v\<close> when it does
  not panic and, if it lands at \<open>key\<close>, writes \<open>v\<close>. \<open>allHarmless\<close> says so of every key
  that the pass visits with its variable set.
\<close>

definition landing :: "string list \<Rightarrow> string \<Rightarrow> panic + string" where
  "landing rp key =
     (let p = join ''.'' rp
      in if HasPrefix key p then
           (if length p + 1 \<le> length key
            then Inr (wrapWithRxxtPrefix rp (drop (length p + 1) key))
            else Inl SliceBoundsOutOfRange)
         else Inr (wrapWithRxxtPrefix rp key))"

definition harmless :: "string list \<Rightarrow> string \<Rightarrow> string \<Rightarrow> string \<Rightarrow> string \<Rightarrow> bool" where
  "harmless rp key v k w \<longleftrightarrow>
     (case landing rp k of Inl e \<Rightarrow> False | Inr t \<Rightarrow> t = key \<longrightarrow> w = v)"

definition allHarmless ::
  "(string \<Rightarrow> string) \<Rightarrow> string list \<Rightarrow> string list \<Rightarrow> (string \<rightharpoonup> string) \<Rightarrow>
   string \<Rightarrow> string \<Rightarrow> string list \<Rightarrow> bool" where
  "allHarmless uni rp ep env key v ks \<longleftrightarrow>
     (\<forall>k \<in> set ks. case env (envKey uni ep k) of None \<Rightarrow> True | Some w \<Rightarrow> harmless rp key v k w)"

text \<open>
  The calls of \<^verbatim>\<open>SetNx\<close> that \<^verbatim>\<open>loopMap\<close> and \<^verbatim>\<open>loopIxMap\<close> make, in their order, as pairs
  of key and value; \<open>writeAll\<close> makes the calls of such a list.
\<close>

fun writesOf :: "string \<Rightarrow> (string \<times> val) list \<Rightarrow> (string \<times> val) list"
  and writesOfIx :: "string \<Rightarrow> (mkey \<times> val) list \<Rightarrow> (string \<times> val) list" where
  "writesOf kdot [] = []"
| "writesOf kdot ((k, v) # m) =
     (case v of
        VIxMap vm \<Rightarrow> writesOfIx (mx kdot k) vm
      | VMap vm \<Rightarrow> writesOf (mx kdot k) vm
      | _ \<Rightarrow> [(mx kdot k, v)]) @ writesOf kdot m"
| "writesOfIx kdot [] = []"
| "writesOfIx kdot ((k, v) # m) =
     (case v of
        VIxMap vm \<Rightarrow> writesOfIx (mxIx kdot k) vm
      | _ \<Rightarrow> [(mxIx kdot k, v)]) @ writesOfIx kdot m"

fun writeAll :: "(string \<times> val) list \<Rightarrow> options \<Rightarrow> options" where
  "writeAll [] s = s"
| "writeAll (kv # W) s = writeAll W (SetNx (fst kv) (snd kv) s)"

text \<open>
  A list of entries is steady when no value is a map keyed by strings, no key begins with
  a dot, and no two keys conflict. \<open>kept W s\<close> are the writes of \<open>W\<close> whose value the flat
  map of \<open>s\<close> holds at their key; \<open>ingested d\<close> are those of the document \<open>d\<close> in the store
  that its ingestion yields, which are the entries of that store's flat map.
\<close>

definition leadingDot :: "string \<Rightarrow> bool" where
  "leadingDot key = (case key of [] \<Rightarrow> False | c # r \<Rightarrow> c = CHR ''.'')"

definition steady :: "(string \<times> val) list \<Rightarrow> bool" where
  "steady W \<longleftrightarrow>
     (\<forall>kv \<in> set W. \<not> isStrMap (snd kv) \<and> \<not> leadingDot (fst kv))
     \<and> (\<forall>a \<in> set W. \<forall>b \<in> set W. \<not> conflict (fst a) (fst b))"

definition kept :: "(string \<times> val) list \<Rightarrow> options \<Rightarrow> (string \<times> val) list" where
  "kept W s = filter (\<lambda>kv. entries s (fst kv) = Some (snd kv)) W"

definition ingested :: "(string \<times> val) list \<Rightarrow> (string \<times> val) list" where
  "ingested d = kept (writesOf [] d) (loopMap [] d NewOptions)"

text \<open>
  While maps keyed by strings are written as values, the tree is covered by the flat map:
  every leaf lies at or below the path of a flat key, at it with the flat value unless that
  value is a map, and every flat value that is not a map is the leaf at its path.
\<close>

definition covered :: "options \<Rightarrow> bool" where
  "covered s \<longleftrightarrow>
     (\<forall>q x. leafAt (hierarchy s) q = Some x \<longrightarrow>
        (\<exists>p v. prefix p q \<and> dotfree p \<and> entries s (join ''.'' p) = Some v
               \<and> (isStrMap v \<or> (p = q \<and> v = x))))
     \<and> (\<forall>q v. dotfree q \<and> entries s (join ''.'' q) = Some v \<and> \<not> isStrMap v \<longrightarrow>
          leafAt (hierarchy s) q = Some v)"

fun isIxMap :: "val \<Rightarrow> bool" where
  "isIxMap (VIxMap m) = True"
| "isIxMap v = False"

text \<open>
  The leaves of a tree with their paths, in the order in which \<^verbatim>\<open>loopMap\<close> meets them. A
  path may start a key when \<^verbatim>\<open>mx\<close>, applied along it, yields its segments joined by dots:
  it is the one empty segment, or its first segment is not empty.
\<close>

fun leavesOf :: "val \<Rightarrow> (string list \<times> val) list" where
  "leavesOf (VMap m) =
     concat (map (\<lambda>kv. map (\<lambda>px. (fst kv # fst px, snd px)) (leavesOf (snd kv))) m)"
| "leavesOf v = [([], v)]"

definition okStart :: "string list \<Rightarrow> bool" where
  "okStart q \<longleftrightarrow> q = [[]] \<or> (q \<noteq> [] \<and> hd q \<noteq> [])"

text \<open>
  A list of leaves is tidy when no path occurs twice, every path is dot-free, no value is a
  map keyed by strings, and no path is a prefix of another. \<open>written L s\<close> says that the
  store holds exactly the leaves of \<open>L\<close>, in the tree and, under the joined paths, in the
  flat map.
\<close>

definition tidy :: "(string list \<times> val) list \<Rightarrow> bool" where
  "tidy L \<longleftrightarrow>
     distinct (map fst L)
     \<and> (\<forall>px \<in> set L. dotfree (fst px) \<and> \<not> isStrMap (snd px))
     \<and> (\<forall>p \<in> fst ` set L. \<forall>q \<in> fst ` set L. prefix p q \<longrightarrow> p = q)"

definition flatOf :: "(string list \<times> val) list \<Rightarrow> (string \<times> val) list" where
  "flatOf L = map (\<lambda>px. (join ''.'' (fst px), snd px)) L"

definition written :: "(string list \<times> val) list \<Rightarrow> options \<Rightarrow> bool" where
  "written L s \<longleftrightarrow>
     (\<forall>q. leafAt (hierarchy s) q = map_of L q)
     \<and> entries s = map_of (flatOf L)
     \<and> (\<forall>q. descend (hierarchy s) q \<noteq> None \<longrightarrow> q = [] \<or> (\<exists>p \<in> fst ` set L. prefix q p))"

declare et.simps [simp del]
declare mergeMap.simps [simp del]
declare digits.simps [simp del]

section \<open>Properties\<close>

subsection \<open>Reset\<close>

text \<open>
  C8. After \<^verbatim>\<open>Reset\<close> the flat map is empty, so that \<^verbatim>\<open>Get\<close> yields nil for every key,
  while the hierarchy tree, and with it what \<^verbatim>\<open>GetHierarchyList\<close> returns, is the tree from
  before the call: nothing but the flat map is modified.
\<close>

theorem Reset_frame:
  "entries (Reset s) = Map.empty \<and> Get (Reset s) key = VNil
   \<and> hierarchy (Reset s) = hierarchy s
   \<and> GetHierarchyList (Reset s) = GetHierarchyList s
   \<and> options.more (Reset s) = options.more s"
  by (simp add: Reset_def Get_def GetHierarchyList_def)

subsection \<open>Boolean coercion\<close>

lemma GetBool_eq:
  "GetBool uni rank s key =
     (case entries s key of
        None \<Rightarrow> Inr False
      | Some (VNamed t x) \<Rightarrow> Inl InterfaceConversion
      | Some v \<Rightarrow> Inr (ToLower uni (stringForm rank v) \<in> set truthy))"
  by (cases "entries s key")
     (auto simp add: GetBool_def GetString_def stringForm_def truthy_def ToLower_def
        split: val.splits kind.splits)

lemma sprintv_IxMap_example:
  "sprintv rank (VIxMap [(KInt 2, VStr ''x''), (KInt 1, VNil)]) = ''map[1:<nil> 2:x]''"
  by (simp add: sortBy_def keyLess_def bracket_def showEntry_def Itoa_def digits.simps)

lemma stringForm_examples:
  "map (stringForm rank)
        [VNil, VBool True, VBool False, VInt 0, VInt (- 12), VInt 305, VStr ''Yes'', VStrs [''a'', ''b''],
         VInts [1, - 2], VBytes ''ab'', VList [VNil, VStr ''x''], VMap [(''b'', VInt 2), (''a'', VBool True)]]
     = ['''', ''true'', ''false'', ''0'', ''-12'', ''305'', ''Yes'', ''[a b]'', ''[1 -2]'', ''[97 98]'',
        ''[<nil> x]'', ''map[a:true b:2]'']"
  by code_simp

text \<open>
  C5. \<^verbatim>\<open>GetBool\<close> is meant to be true exactly when the lower-cased string form of the stored
  value is one of 1, y, t, yes, true, ok, on, and false otherwise, without ever failing.
  The code does so for every stored value but one kind. A value of a named string type
  (\<^verbatim>\<open>type Level string\<close>) has the kind \<^verbatim>\<open>reflect.String\<close>, so \<^verbatim>\<open>GetString\<close> asserts
  \<^verbatim>\<open>v.(string)\<close> on it; the assertion fails and the call panics:
  \<^verbatim>\<open>GetBool("app.level")\<close> after \<^verbatim>\<open>SetNx("app.level", Level("yes"))\<close> does not return. For
  an absent key the result is false; for every other stored value it is the membership of
  the lower-cased string form among the seven strings, where nil has the empty string form
  and everything else its \<^verbatim>\<open>%v\<close> form. The strings 1, y, T, Yes, TRUE, oK, ON, the boolean
  true and the integer 1 give true; 0, no, false, the empty string, a string with a
  trailing blank, 2, the boolean false, the integers 0, 11 and -1, nil, and lists and maps
  of one element give false. Lower-casing maps the letters A to Z and nothing else of
  ASCII; the string forms are those of \<^verbatim>\<open>%v\<close>, with the keys of a map in sorted order.
  Beyond ASCII the result follows the lower-casing of the library: for the letter O
  followed by the Kelvin sign it is whatever the library maps that string to.
\<close>

theorem GetBool_named_string:
  "GetBool uni rank (SetNx ''app.level'' (VNamed ''Level'' ''yes'') NewOptions) ''app.level''
     = Inl InterfaceConversion
   \<and> GetBool uni rank s key =
       (case entries s key of
          None \<Rightarrow> Inr False
        | Some (VNamed t x) \<Rightarrow> Inl InterfaceConversion
        | Some v \<Rightarrow> Inr (ToLower uni (stringForm rank v) \<in> set truthy))
   \<and> map (\<lambda>v. GetBool uni rank (SetNx ''k'' v NewOptions) ''k'')
        [VStr ''1'', VStr ''y'', VStr ''T'', VStr ''Yes'', VStr ''TRUE'', VStr ''oK'', VStr ''ON'',
         VBool True, VInt 1]
     = replicate 9 (Inr True)
   \<and> map (\<lambda>v. GetBool uni rank (SetNx ''k'' v NewOptions) ''k'')
        [VStr ''0'', VStr ''no'', VStr ''false'', VStr '''', VStr ''yes '', VStr ''2'',
         VBool False, VInt 0, VInt 11, VInt (- 1), VNil, VStrs [''yes''], VInts [1], VBytes ''1'',
         VList [VBool True], VMap [(''y'', VNil)], VIxMap [(KInt 1, VNil)]]
     = replicate 17 (Inr False)
   \<and> GetBool uni rank NewOptions ''k'' = Inr False
   \<and> ToLower uni ''@ABCDEFGHIJKLMNOPQRSTUVWXYZ[`abcdefghijklmnopqrstuvwxyz{ 0189''
     = ''@abcdefghijklmnopqrstuvwxyz[`abcdefghijklmnopqrstuvwxyz{ 0189''
   \<and> map (stringForm rank)
        [VNil, VBool True, VBool False, VInt 0, VInt (- 12), VInt 305, VStr ''Yes'', VStrs [''a'', ''b''],
         VInts [1, - 2], VBytes ''ab'', VList [VNil, VStr ''x''], VMap [(''b'', VInt 2), (''a'', VBool True)],
         VIxMap [(KInt 2, VStr ''x''), (KInt 1, VNil)]]
     = ['''', ''true'', ''false'', ''0'', ''-12'', ''305'', ''Yes'', ''[a b]'', ''[1 -2]'', ''[97 98]'',
        ''[<nil> x]'', ''map[a:true b:2]'', ''map[1:<nil> 2:x]'']
   \<and> GetBool uni rank (SetNx ''k'' (VStr [CHR ''O'', CHR 0xE2, CHR 0x84, CHR 0xAA]) NewOptions) ''k''
     = Inr (uni [CHR ''O'', CHR 0xE2, CHR 0x84, CHR 0xAA] \<in> set truthy)"
proof (intro conjI)
  show "GetBool uni rank s key =
       (case entries s key of
          None \<Rightarrow> Inr False
        | Some (VNamed t x) \<Rightarrow> Inl InterfaceConversion
        | Some v \<Rightarrow> Inr (ToLower uni (stringForm rank v) \<in> set truthy))"
    by (rule GetBool_eq)
  show "GetBool uni rank (SetNx ''k'' (VStr [CHR ''O'', CHR 0xE2, CHR 0x84, CHR 0xAA]) NewOptions) ''k''
     = Inr (uni [CHR ''O'', CHR 0xE2, CHR 0x84, CHR 0xAA] \<in> set truthy)"
    by (simp add: GetBool_eq SetNx_def stringForm_def ToLower_def isASCII_def)
  show "map (stringForm rank)
        [VNil, VBool True, VBool False, VInt 0, VInt (- 12), VInt 305, VStr ''Yes'', VStrs [''a'', ''b''],
         VInts [1, - 2], VBytes ''ab'', VList [VNil, VStr ''x''], VMap [(''b'', VInt 2), (''a'', VBool True)],
         VIxMap [(KInt 2, VStr ''x''), (KInt 1, VNil)]]
     = ['''', ''true'', ''false'', ''0'', ''-12'', ''305'', ''Yes'', ''[a b]'', ''[1 -2]'', ''[97 98]'',
        ''[<nil> x]'', ''map[a:true b:2]'', ''map[1:<nil> 2:x]'']"
    using stringForm_examples [of rank] sprintv_IxMap_example [of rank] by (simp add: stringForm_def)
qed code_simp+

subsection \<open>Slice coercion\<close>






subsection \<open>Environment overlay\<close>

lemma envKey_spec: "envKey uni ep key = envNameBySpec uni ep key"
proof -
  have "map (\<lambda>c. if c = CHR ''-'' then CHR ''_'' else c)
          (map (\<lambda>c. if c = CHR ''.'' then CHR ''_'' else c) key) =
        map (\<lambda>c. if c = CHR ''.'' \<or> c = CHR ''-'' then CHR ''_'' else c) key"
    by (induction key) auto
  then show ?thesis
    by (simp add: envKey_def envNameBySpec_def ReplaceAll_def Let_def del: map_map)
qed

lemma landing_underPrefix:
  assumes "rp \<noteq> []" and "underPrefix rp key"
  shows "landing rp key = Inr key"
proof -
  let ?p = "join ''.'' rp"
  from assms have len: "length ?p + 1 < length key"
    and tk: "take (length ?p + 1) key = ?p @ ''.''"
    by (simp_all add: underPrefix_def)
  have "take (length ?p) (take (length ?p + 1) key) = ?p"
    using tk by simp
  then have hp: "HasPrefix key ?p"
    by (simp add: HasPrefix_def min_def)
  have "key = take (length ?p + 1) key @ drop (length ?p + 1) key"
    by simp
  then have "key = ?p @ ''.'' @ drop (length ?p + 1) key"
    using tk by (metis append.assoc)
  moreover have "drop (length ?p + 1) key \<noteq> []" using len by simp
  ultimately have "wrapWithRxxtPrefix rp (drop (length ?p + 1) key) = key"
    using assms(1) by (simp add: wrapWithRxxtPrefix_def Let_def)
  with hp len show ?thesis
    by (simp add: landing_def Let_def)
qed

lemma join_nonempty_prefix: "rp \<noteq> [] \<Longrightarrow> wrapWithRxxtPrefix rp r = (if r = [] then join ''.'' rp else join ''.'' rp @ ''.'' @ r)"
  by (simp add: wrapWithRxxtPrefix_def Let_def)

lemma landing_self:
  "landing rp key = Inr key \<longleftrightarrow> rp \<noteq> [] \<and> underPrefix rp key"
proof
  assume "rp \<noteq> [] \<and> underPrefix rp key"
  then show "landing rp key = Inr key" by (simp add: landing_underPrefix)
next
  assume l: "landing rp key = Inr key"
  let ?p = "join ''.'' rp"
  have ne: "rp \<noteq> []"
  proof
    assume "rp = []"
    with l show False
      by (cases key) (simp_all add: landing_def HasPrefix_def wrapWithRxxtPrefix_def Let_def split: if_splits)
  qed
  show "rp \<noteq> [] \<and> underPrefix rp key"
  proof (cases "HasPrefix key ?p")
    case True
    with l have len: "length ?p + 1 \<le> length key"
      and w: "wrapWithRxxtPrefix rp (drop (length ?p + 1) key) = key"
      by (auto simp add: landing_def Let_def split: if_splits)
    let ?r = "drop (length ?p + 1) key"
    have "?r \<noteq> []"
    proof
      assume "?r = []"
      with w ne have "key = ?p" by (simp add: join_nonempty_prefix)
      with len show False by simp
    qed
    with w ne have k: "key = ?p @ ''.'' @ ?r" by (simp add: join_nonempty_prefix)
    have "length ?p + 1 < length key"
      using \<open>?r \<noteq> []\<close> by simp
    moreover have "take (length ?p + 1) key = ?p @ ''.''"
      by (subst k) simp
    ultimately show ?thesis using ne by (simp add: underPrefix_def)
  next
    case False
    with l have w: "wrapWithRxxtPrefix rp key = key"
      by (auto simp add: landing_def Let_def split: if_splits)
    show ?thesis
    proof (cases "key = []")
      case True
      with w ne have "?p = []" by (simp add: join_nonempty_prefix)
      with False True show ?thesis by (simp add: HasPrefix_def)
    next
      case nk: False
      with w ne have "?p @ ''.'' @ key = key" by (simp add: join_nonempty_prefix)
      then have "length (?p @ ''.'' @ key) = length key" by simp
      then show ?thesis by simp
    qed
  qed
qed

lemma entries_SetNx_VStr: "entries (SetNx key (VStr v) s) = (entries s)(key \<mapsto> VStr v)"
  by (simp add: SetNx_def Let_def)

lemma overlayKey_landing:
  "overlayKey uni rp ep env k s =
     (case env (envKey uni ep k) of
        None \<Rightarrow> Inr s
      | Some w \<Rightarrow>
          (case landing rp k of
             Inl e \<Rightarrow> Inl e
           | Inr t \<Rightarrow> Inr (SetNx t (VStr w) s)))"
  by (simp add: overlayKey_def landing_def Let_def Set_def split: option.splits)

lemma buildAutomaticEnv_harmless:
  assumes own: "landing rp key = Inr key" and v: "env (envKey uni ep key) = Some v"
    and others: "allHarmless uni rp ep env key v ks"
  shows "\<exists>s'. buildAutomaticEnv uni rp ep env ks s = Inr s' \<and>
           (entries s' key = Some (VStr v) \<or> (entries s' key = entries s key \<and> key \<notin> set ks))"
  using others
proof (induction ks arbitrary: s)
  case Nil
  then show ?case by simp
next
  case (Cons k ks)
  then have rest: "allHarmless uni rp ep env key v ks"
    by (simp add: allHarmless_def)
  show ?case
  proof (cases "env (envKey uni ep k)")
    case None
    then have "k \<noteq> key" using v by auto
    with Cons.IH [OF rest, of s] None show ?thesis
      by (auto simp add: overlayKey_landing)
  next
    case (Some w)
    with Cons.prems have "harmless rp key v k w" by (simp add: allHarmless_def)
    then obtain t where t: "landing rp k = Inr t" and tk: "t = key \<longrightarrow> w = v"
      by (auto simp add: harmless_def split: sum.splits)
    from Cons.IH [OF rest, of "SetNx t (VStr w) s"] obtain s' where
      b: "buildAutomaticEnv uni rp ep env ks (SetNx t (VStr w) s) = Inr s'"
      and e: "entries s' key = Some (VStr v)
              \<or> (entries s' key = entries (SetNx t (VStr w) s) key \<and> key \<notin> set ks)"
      by blast
    have step: "buildAutomaticEnv uni rp ep env (k # ks) s = Inr s'"
      using Some t b by (simp add: overlayKey_landing)
    have "entries s' key = Some (VStr v) \<or> (entries s' key = entries s key \<and> key \<notin> set (k # ks))"
    proof (cases "t = key")
      case True
      with tk have "w = v" by simp
      with e True show ?thesis by (auto simp add: entries_SetNx_VStr)
    next
      case False
      with own t have "k \<noteq> key" by auto
      with e False show ?thesis by (auto simp add: entries_SetNx_VStr)
    qed
    with step show ?thesis by blast
  qed
qed

text \<open>
  C3, as stated, fails in five ways. With the prefix \<^verbatim>\<open>app\<close>, the key \<^verbatim>\<open>debug\<close> lies outside
  the prefix: the overlay writes through \<^verbatim>\<open>Set\<close>, which wraps the key, so the value of
  \<^verbatim>\<open>DEBUG\<close> lands at \<^verbatim>\<open>app.debug\<close> and \<^verbatim>\<open>debug\<close> keeps its value. With an empty prefix the
  first character of the key is sliced off and the value lands at \<^verbatim>\<open>ebug\<close>. The key \<^verbatim>\<open>app.\<close>
  has an empty rest, and its value lands at \<^verbatim>\<open>app\<close>. With the keys \<^verbatim>\<open>app.a\<close> and \<^verbatim>\<open>a\<close> and
  both variables set, the write for \<^verbatim>\<open>a\<close> lands at \<^verbatim>\<open>app.a\<close> too, and \<^verbatim>\<open>app.a\<close> ends with the
  value of the variable \<^verbatim>\<open>A\<close>. With the keys \<^verbatim>\<open>app\<close> and \<^verbatim>\<open>app.a\<close>, the key \<^verbatim>\<open>app\<close> is sliced
  beyond its end and the pass panics.
\<close>

theorem env_overlay_counterexample:
  "entries (SetNx ''debug'' (VStr ''false'') NewOptions) ''debug'' = Some (VStr ''false'')
   \<and> [''DEBUG'' \<mapsto> ''true''] (envKey id [] ''debug'') = Some ''true''
   \<and> (case buildAutomaticEnv id [''app''] [] [''DEBUG'' \<mapsto> ''true''] [''debug'']
              (SetNx ''debug'' (VStr ''false'') NewOptions) of
         Inl e \<Rightarrow> False
       | Inr s' \<Rightarrow> entries s' ''debug'' = Some (VStr ''false'')
                 \<and> entries s' ''debug'' \<noteq> Some (VStr ''true'')
                 \<and> entries s' ''app.debug'' = Some (VStr ''true''))
   \<and> (case buildAutomaticEnv id [] [] [''DEBUG'' \<mapsto> ''true''] [''debug'']
              (SetNx ''debug'' (VStr ''false'') NewOptions) of
         Inl e \<Rightarrow> False
       | Inr s' \<Rightarrow> entries s' ''debug'' = Some (VStr ''false'')
                 \<and> entries s' ''ebug'' = Some (VStr ''true''))
   \<and> (case buildAutomaticEnv id [''app''] [] [''APP_'' \<mapsto> ''true''] [''app.'']
              (SetNx ''app.'' (VStr ''false'') NewOptions) of
         Inl e \<Rightarrow> False
       | Inr s' \<Rightarrow> entries s' ''app.'' = Some (VStr ''false'')
                 \<and> entries s' ''app'' = Some (VStr ''true''))
   \<and> (case buildAutomaticEnv id [''app''] [] [''APP_A'' \<mapsto> ''x'', ''A'' \<mapsto> ''y''] [''app.a'', ''a'']
              (SetNx ''a'' (VInt 0) (SetNx ''app.a'' (VInt 0) NewOptions)) of
         Inl e \<Rightarrow> False
       | Inr s' \<Rightarrow> entries s' ''app.a'' = Some (VStr ''y''))
   \<and> (case buildAutomaticEnv id [''app''] [] [''APP'' \<mapsto> ''x'', ''APP_A'' \<mapsto> ''y'']
              [''app'', ''app.a''] (SetNx ''app.a'' (VInt 0) (SetNx ''app'' VNil NewOptions)) of
         Inl e \<Rightarrow> e = SliceBoundsOutOfRange
       | Inr s' \<Rightarrow> False)"
  by code_simp

text \<open>
  C3, amended. The name of the variable for a key is, for every key, the key with dots and
  dashes replaced by underscores, upper-cased, and joined to the prefix segments by
  underscores. Let the configured prefix be non-empty and let a key of the flat map lie
  under it (the dotted prefix, a dot, a non-empty rest); by \<open>landing_self\<close> these are
  exactly the keys that the pass writes back at themselves. When the variable of that name
  is set, and every key that the pass visits with its variable set is written back without
  slicing beyond its end and, where the write lands at this key, with the same value, the
  pass completes and the key holds the variable's string value afterwards. The keys that
  the pass visits are the list \<open>ks\<close>; a key of the flat map is among them.
\<close>

theorem env_overlay:
  "envKey uni ep key = envNameBySpec uni ep key
   \<and> (rp \<noteq> [] \<and> underPrefix rp key \<and> key \<in> set ks \<and> env (envKey uni ep key) = Some v
        \<and> allHarmless uni rp ep env key v ks \<longrightarrow>
        (\<exists>s'. buildAutomaticEnv uni rp ep env ks s = Inr s' \<and> entries s' key = Some (VStr v)))"
proof (intro conjI impI)
  show "envKey uni ep key = envNameBySpec uni ep key"
    by (rule envKey_spec)
next
  assume a: "rp \<noteq> [] \<and> underPrefix rp key \<and> key \<in> set ks \<and> env (envKey uni ep key) = Some v
        \<and> allHarmless uni rp ep env key v ks"
  then have own: "landing rp key = Inr key"
    by (simp add: landing_underPrefix)
  from a have v: "env (envKey uni ep key) = Some v"
    and h: "allHarmless uni rp ep env key v ks" and k: "key \<in> set ks"
    by simp_all
  from buildAutomaticEnv_harmless [OF own v h, of s] k
  show "\<exists>s'. buildAutomaticEnv uni rp ep env ks s = Inr s' \<and> entries s' key = Some (VStr v)"
    by auto
qed

theorem env_overlay_witness:
  "envKey id [] ''app.debug'' = ''APP_DEBUG'' \<and>
   (\<exists>s'. buildAutomaticEnv id [''app''] []
            [''APP_DEBUG'' \<mapsto> ''true'', ''RUNMODE'' \<mapsto> ''prod'', ''DEBUG'' \<mapsto> ''true'']
            [''runmode'', ''app.debug'', ''debug'', ''title'']
            (SetNx ''title'' (VStr ''x'') (SetNx ''debug'' (VStr ''no'') (SetNx ''runmode'' (VStr ''devel'')
               (SetNx ''app.debug'' (VStr ''false'') NewOptions)))) = Inr s'
          \<and> entries s' ''app.debug'' = Some (VStr ''true'')
          \<and> entries s' ''runmode'' = Some (VStr ''devel'')
          \<and> entries s' ''app.runmode'' = Some (VStr ''prod''))"
proof -
  let ?s = "SetNx ''title'' (VStr ''x'') (SetNx ''debug'' (VStr ''no'') (SetNx ''runmode'' (VStr ''devel'')
               (SetNx ''app.debug'' (VStr ''false'') NewOptions)))"
  let ?env = "[''APP_DEBUG'' \<mapsto> ''true'', ''RUNMODE'' \<mapsto> ''prod'', ''DEBUG'' \<mapsto> ''true'']"
  let ?ks = "[''runmode'', ''app.debug'', ''debug'', ''title'']"
  have 1: "[''app''] \<noteq> []" by simp
  have 2: "underPrefix [''app''] ''app.debug''"
    by code_simp
  have 3: "''app.debug'' \<in> set ?ks" by simp
  have n: "envKey id [] ''app.debug'' = ''APP_DEBUG''"
    by code_simp
  have 4: "?env (envKey id [] ''app.debug'') = Some ''true''"
    unfolding n by simp
  have 5: "allHarmless id [''app''] [] ?env ''app.debug'' ''true'' ?ks"
    by code_simp
  from env_overlay [where env = ?env and ep = "[]" and uni = id and s = ?s and v = "''true''"
      and rp = "[''app'']" and key = "''app.debug''" and ks = ?ks] 1 2 3 4 5 obtain s' where
    b: "buildAutomaticEnv id [''app''] [] ?env ?ks ?s = Inr s'"
    and e: "entries s' ''app.debug'' = Some (VStr ''true'')"
    by blast
  have "case buildAutomaticEnv id [''app''] [] ?env ?ks ?s of
          Inl e \<Rightarrow> False
        | Inr t \<Rightarrow> entries t ''runmode'' = Some (VStr ''devel'')
                  \<and> entries t ''app.runmode'' = Some (VStr ''prod'')"
    by code_simp
  then have "entries s' ''runmode'' = Some (VStr ''devel'')"
    and "entries s' ''app.runmode'' = Some (VStr ''prod'')"
    unfolding b by simp_all
  with b e n show ?thesis by blast
qed

subsection \<open>Descending the tree\<close>

lemma et_nest: "et keys ix v = nest (drop ix keys) v"
proof (induction keys ix v rule: et.induct)
  case (1 keys ix v)
  show ?case
  proof (cases "ix < length keys")
    case True
    then have "int ix \<le> int (length keys) - 1" by simp
    with 1 True show ?thesis
      by (subst et.simps) (simp add: Cons_nth_drop_Suc [symmetric])
  next
    case False
    then have "\<not> int ix \<le> int (length keys) - 1" by simp
    with False show ?thesis
      by (subst et.simps) simp
  qed
qed

lemma isStrMap_nest: "isStrMap (nest ks v) \<longleftrightarrow> ks \<noteq> [] \<or> isStrMap v"
  by (cases ks) simp_all

lemma mergeMap_leaf:
  "\<not> isStrMap v \<Longrightarrow> mergeMap m k v = AList.update k v m"
  by (subst mergeMap.simps) (cases v; simp split: option.splits val.splits)

lemma mergeMap_fresh:
  "(\<And>zm. map_of m k \<noteq> Some (VMap zm)) \<Longrightarrow> mergeMap m k v = AList.update k v m"
  by (subst mergeMap.simps) (simp split: option.splits val.splits)

lemma mergeMap_single:
  "map_of m k = Some (VMap zm) \<Longrightarrow>
   mergeMap m k (VMap [(k', x)]) = AList.update k (VMap (mergeMap zm k' x)) m"
  by (subst mergeMap.simps) simp

lemma leafOf_leaf: "\<not> isStrMap v \<Longrightarrow> leafOf v q = (if q = [] then Some v else None)"
  by (cases q; cases v; simp add: leafOf_def)

lemma leafOf_VMap:
  "leafOf (VMap m) q =
     (case q of [] \<Rightarrow> None | k # q' \<Rightarrow> (case map_of m k of None \<Rightarrow> None | Some x \<Rightarrow> leafOf x q'))"
  by (cases q) (simp_all add: leafOf_def split: option.splits)

lemma leafOf_nest:
  "\<not> isStrMap v \<Longrightarrow> leafOf (nest ks v) q = (if q = ks then Some v else None)"
proof (induction ks arbitrary: q)
  case Nil
  then show ?case by (simp add: leafOf_leaf)
next
  case (Cons k ks)
  then show ?case
    by (cases q) (auto simp add: leafOf_VMap)
qed

lemma leafAt_update:
  "leafAt (AList.update k x m) q =
     (case q of [] \<Rightarrow> None | k' # q' \<Rightarrow> if k' = k then leafOf x q' else leafAt m q)"
  by (cases q) (simp_all add: leafAt_def leafOf_VMap update_conv')

lemma leafAt_insert:
  "\<not> isStrMap v \<Longrightarrow>
   leafAt (mergeMap m k (nest ks v)) q =
     (if q = k # ks then Some v
      else if prefix q (k # ks) \<or> prefix (k # ks) q then None
      else leafAt m q)"
proof (induction ks arbitrary: m k q)
  case Nil
  have m: "mergeMap m k (nest [] v) = AList.update k v m"
    using Nil by (simp add: mergeMap_leaf)
  show ?case
    unfolding m using Nil
    by (cases q) (auto simp add: leafAt_update leafOf_leaf)
next
  case (Cons k' ks)
  show ?case
  proof (cases "\<exists>zm. map_of m k = Some (VMap zm)")
    case True
    then obtain zm where zm: "map_of m k = Some (VMap zm)" by blast
    have m: "mergeMap m k (nest (k' # ks) v) = AList.update k (VMap (mergeMap zm k' (nest ks v))) m"
      using zm by (simp add: mergeMap_single)
    have ih: "leafAt (mergeMap zm k' (nest ks v)) q' =
       (if q' = k' # ks then Some v
        else if prefix q' (k' # ks) \<or> prefix (k' # ks) q' then None
        else leafAt zm q')" for q'
      using Cons.IH [OF Cons.prems] .
    have old: "leafAt m (k # q') = leafAt zm q'" for q'
      using zm by (simp add: leafAt_def leafOf_VMap)
    show ?thesis
      unfolding m
      by (cases q) (auto simp add: leafAt_update leafAt_def [symmetric] ih old)
  next
    case False
    then have m: "mergeMap m k (nest (k' # ks) v) = AList.update k (nest (k' # ks) v) m"
      by (intro mergeMap_fresh) blast
    have old: "leafAt m (k # q') = None" if np: "\<not> prefix q' (k' # ks)" for q'
    proof (cases "map_of m k")
      case None
      then show ?thesis by (simp add: leafAt_def leafOf_VMap)
    next
      case (Some x)
      with False have "\<not> isStrMap x" by (cases x) auto
      moreover from np have "q' \<noteq> []" by auto
      ultimately show ?thesis using Some by (simp add: leafAt_def leafOf_VMap leafOf_leaf)
    qed
    show ?thesis
      unfolding m using Cons.prems
      apply (cases q)
       apply (simp add: leafAt_update)
      apply (simp add: leafAt_update leafOf_nest [of v "k' # ks"] del: nest.simps)
      using old apply auto
      done
  qed
qed

subsection \<open>Splitting and joining keys\<close>

lemma split_on_nonempty: "split_on c s \<noteq> []"
  by (induction s) (auto split: list.splits)

lemma split_on_free: "x \<in> set (split_on c s) \<Longrightarrow> c \<notin> set x"
proof (induction s arbitrary: x)
  case Nil
  then show ?case by simp
next
  case (Cons a s)
  then show ?case
    by (cases "split_on c s") (auto split: if_splits)
qed

lemma join_Cons: "xs \<noteq> [] \<Longrightarrow> join sep (x # xs) = x @ sep @ join sep xs"
  by (cases xs) simp_all

lemma join_split: "join [c] (split_on c s) = s"
proof (induction s)
  case Nil
  then show ?case by simp
next
  case (Cons a s)
  show ?case
  proof (cases "a = c")
    case True
    then show ?thesis
      using Cons split_on_nonempty [of c s] by (simp add: join_Cons)
  next
    case False
    obtain h t where ht: "split_on c s = h # t"
      using split_on_nonempty [of c s] by (cases "split_on c s") auto
    with Cons False show ?thesis
      by (cases t) auto
  qed
qed

lemma split_on_plain: "c \<notin> set x \<Longrightarrow> split_on c x = [x]"
  by (induction x) auto

lemma split_on_append: "c \<notin> set x \<Longrightarrow> split_on c (x @ c # s) = x # split_on c s"
  by (induction x) auto

lemma split_join:
  "xs \<noteq> [] \<Longrightarrow> \<forall>x \<in> set xs. c \<notin> set x \<Longrightarrow> split_on c (join [c] xs) = xs"
proof (induction xs)
  case Nil
  then show ?case by simp
next
  case (Cons x xs)
  show ?case
  proof (cases xs)
    case Nil
    with Cons.prems show ?thesis by (simp add: split_on_plain)
  next
    case (Cons y ys)
    with Cons.IH Cons.prems have "split_on c (join [c] xs) = xs" by simp
    with Cons Cons.prems show ?thesis
      using split_on_append [of c x "join [c] xs"] by (simp add: join_Cons)
  qed
qed

lemma split_on_inj: "split_on c s = split_on c t \<Longrightarrow> s = t"
  by (metis join_split)

lemma getMap_descend: "getMap m k ks \<noteq> None \<longleftrightarrow> descend m (k # ks) \<noteq> None"
proof (induction ks arbitrary: m k)
  case Nil
  then show ?case
    by (auto simp add: descend_def split: option.splits val.splits)
next
  case (Cons a ks)
  show ?case
  proof (cases "map_of m k")
    case None
    then show ?thesis by (simp add: descend_def)
  next
    case (Some z)
    then show ?thesis
      using Cons.IH [of _ a] by (cases z) (simp_all add: descend_def)
  qed
qed

lemma getMapNoLock_split:
  "split_on CHR ''.'' key = k # ks \<Longrightarrow> getMapNoLock s key = getMap (hierarchy s) k ks"
  by (simp add: getMapNoLock_def Let_def)

lemma SetNx_split:
  assumes "split_on CHR ''.'' key = k # ks"
  shows "SetNx key v s =
     (if v = VNil \<and> descend (hierarchy s) (k # ks) \<noteq> None then s
      else s\<lparr>entries := (entries s)(key \<mapsto> v),
             hierarchy := mergeMap (hierarchy s) k (nest ks v)\<rparr>)"
  using assms getMap_descend [of "hierarchy s" k ks]
  by (auto simp add: SetNx_def Let_def getMapNoLock_split et_nest)

lemma dotfree_segments: "dotfree (segments key)"
  using split_on_nonempty split_on_free by (auto simp add: dotfree_def segments_def)

lemma join_segments: "join ''.'' (segments key) = key"
  by (simp add: segments_def join_split)

lemma segments_join: "dotfree q \<Longrightarrow> segments (join ''.'' q) = q"
  by (simp add: segments_def dotfree_def split_join)

lemma mirrored_NewOptions: "mirrored NewOptions"
  by (simp add: mirrored_def NewOptions_def leafAt_def leafOf_VMap split: list.splits)

lemma mirrored_SetNx:
  assumes inv: "mirrored s" and leaf: "\<not> isStrMap v"
    and compat: "\<forall>k \<in> dom (entries s). \<not> conflict k key"
  shows "mirrored (SetNx key v s)"
proof -
  obtain k ks where sp: "segments key = k # ks"
    using dotfree_segments [of key] by (cases "segments key") (auto simp: dotfree_def)
  then have sp': "split_on CHR ''.'' key = k # ks" by (simp add: segments_def)
  show ?thesis
  proof (cases "v = VNil \<and> descend (hierarchy s) (k # ks) \<noteq> None")
    case True
    then show ?thesis using inv by (simp add: SetNx_split [OF sp'])
  next
    case False
    let ?s' = "s\<lparr>entries := (entries s)(key \<mapsto> v), hierarchy := mergeMap (hierarchy s) k (nest ks v)\<rparr>"
    have eq: "SetNx key v s = ?s'"
      using False by (auto simp add: SetNx_split [OF sp'])
    have "leafAt (hierarchy ?s') q = (if dotfree q then entries ?s' (join ''.'' q) else None)" for q
    proof (cases "q = k # ks")
      case True
      then show ?thesis
        using leaf sp dotfree_segments [of key] join_segments [of key]
        by (simp add: leafAt_insert)
    next
      case ne: False
      show ?thesis
      proof (cases "dotfree q")
        case df: True
        then have sq: "segments (join ''.'' q) = q" by (rule segments_join)
        have jne: "join ''.'' q \<noteq> key"
          using sq sp ne by auto
        show ?thesis
        proof (cases "prefix q (k # ks) \<or> prefix (k # ks) q")
          case True
          then have "conflict (join ''.'' q) key"
            using ne sq sp by (auto simp add: conflict_def strict_prefix_def)
          then have "entries s (join ''.'' q) = None"
            using compat by blast
          then show ?thesis
            using True ne df jne leaf by (simp add: leafAt_insert)
        next
          case False
          then show ?thesis
            using ne df jne leaf inv by (simp add: leafAt_insert mirrored_def)
        qed
      next
        case ndf: False
        then have "leafAt (hierarchy s) q = None"
          using inv by (simp add: mirrored_def)
        then show ?thesis
          using ndf ne leaf by (simp add: leafAt_insert)
      qed
    qed
    then show ?thesis
      unfolding eq mirrored_def by blast
  qed
qed

lemma dom_entries_SetNx: "dom (entries (SetNx key v s)) \<subseteq> insert key (dom (entries s))"
  by (auto simp add: SetNx_def Let_def split: if_splits)

subsection \<open>The tree mirrors the flat map\<close>

lemma applyOp_SetNx: "applyOp rp x s = SetNx (opKey rp x) (opVal x) s"
  by (cases x) (simp_all add: Set_def)

lemma mirrored_runOps:
  assumes "mirrored s"
    and "\<forall>x \<in> set ops. \<not> isStrMap (opVal x)"
    and "\<forall>a \<in> set ops. \<forall>b \<in> set ops. \<not> conflict (opKey rp a) (opKey rp b)"
    and "\<forall>k \<in> dom (entries s). \<forall>b \<in> set ops. \<not> conflict k (opKey rp b)"
  shows "mirrored (runOps rp ops s)"
  using assms
proof (induction ops arbitrary: s)
  case Nil
  then show ?case by simp
next
  case (Cons x xs)
  let ?s' = "SetNx (opKey rp x) (opVal x) s"
  have m: "mirrored ?s'"
    using Cons.prems by (intro mirrored_SetNx) auto
  have d: "\<forall>k \<in> dom (entries ?s'). \<forall>b \<in> set xs. \<not> conflict k (opKey rp b)"
  proof (intro ballI)
    fix k b assume k: "k \<in> dom (entries ?s')" and b: "b \<in> set xs"
    from k dom_entries_SetNx [of "opKey rp x" "opVal x" s]
    have "k = opKey rp x \<or> k \<in> dom (entries s)" by blast
    then show "\<not> conflict k (opKey rp b)"
      using Cons.prems(3,4) b by auto
  qed
  have "mirrored (runOps rp xs ?s')"
    using m d Cons.prems(2,3) by (intro Cons.IH) auto
  then show ?case by (simp add: applyOp_SetNx)
qed

lemma leafAt_descend: "leafAt m q = Some v \<longleftrightarrow> descend m q = Some v \<and> \<not> isStrMap v"
  by (auto simp add: leafAt_def leafOf_def descend_def split: option.splits if_splits)

text \<open>
  C1, as stated, fails when one key continues another: after \<^verbatim>\<open>SetNx("a.b", 1)\<close> and
  \<^verbatim>\<open>SetNx("a", 2)\<close> the flat map still holds \<^verbatim>\<open>a.b\<close>, while the tree holds the leaf 2 at
  \<^verbatim>\<open>a\<close> and nothing below it, since a leaf written over a branch replaces it.
\<close>

theorem flat_tree_conflict_counterexample:
  "entries (runOps [''app''] [OpSetNx ''a.b'' (VInt 1), OpSetNx ''a'' (VInt 2)] NewOptions) ''a.b''
     = Some (VInt 1)
   \<and> descend (hierarchy (runOps [''app''] [OpSetNx ''a.b'' (VInt 1), OpSetNx ''a'' (VInt 2)] NewOptions))
       (segments ''a.b'') = None
   \<and> hierarchy (runOps [''app''] [OpSetNx ''a.b'' (VInt 1), OpSetNx ''a'' (VInt 2)] NewOptions)
     = [(''a'', VInt 2)]"
  by code_simp

text \<open>
  C1, amended. After any sequence of \<^verbatim>\<open>Set\<close> and \<^verbatim>\<open>SetNx\<close> calls on a new store, none of
  which writes a map keyed by strings and no two of which write conflicting keys (the
  segments of one a proper prefix of the segments of the other), every key of the flat map
  is reached in the tree by descending through its segments, with the flat value found
  there; and every leaf reached in the tree along a path is the flat value of the key that
  joins the path with dots, which is the only key with these segments.
\<close>

theorem flat_tree_consistent:
  assumes "\<forall>x \<in> set ops. \<not> isStrMap (opVal x)"
    and "\<forall>a \<in> set ops. \<forall>b \<in> set ops. \<not> conflict (opKey rp a) (opKey rp b)"
  shows "(\<forall>key v. entries (runOps rp ops NewOptions) key = Some v \<longrightarrow>
            descend (hierarchy (runOps rp ops NewOptions)) (segments key) = Some v)
       \<and> (\<forall>path v. descend (hierarchy (runOps rp ops NewOptions)) path = Some v \<and> \<not> isStrMap v \<longrightarrow>
            entries (runOps rp ops NewOptions) (join ''.'' path) = Some v
            \<and> segments (join ''.'' path) = path)"
proof -
  let ?s = "runOps rp ops NewOptions"
  have "mirrored ?s"
    using assms mirrored_NewOptions
    by (intro mirrored_runOps) (auto simp add: NewOptions_def)
  then have m: "leafAt (hierarchy ?s) q = (if dotfree q then entries ?s (join ''.'' q) else None)" for q
    by (simp add: mirrored_def)
  have 1: "descend (hierarchy ?s) (segments key) = Some v" if "entries ?s key = Some v" for key v
    using m [of "segments key"] that dotfree_segments [of key] join_segments [of key]
    by (simp add: leafAt_descend)
  have 2: "entries ?s (join ''.'' path) = Some v \<and> segments (join ''.'' path) = path"
    if "descend (hierarchy ?s) path = Some v" "\<not> isStrMap v" for path v
  proof -
    from that have l: "leafAt (hierarchy ?s) path = Some v" by (simp add: leafAt_descend)
    with m [of path] have df: "dotfree path" by (auto split: if_splits)
    with l m [of path] show ?thesis by (simp add: segments_join)
  qed
  from 1 2 show ?thesis by blast
qed

theorem flat_tree_consistent_witness:
  "descend
     (hierarchy (runOps [''app'']
        [OpSet ''debug'' (VBool True), OpSetNx ''app.logger.level'' (VStr ''DEBUG''),
         OpSet ''logger.file'' VNil, OpSet ''debug'' (VBool False)] NewOptions))
     (segments ''app.debug'') = Some (VBool False)
   \<and> entries
     (runOps [''app'']
        [OpSet ''debug'' (VBool True), OpSetNx ''app.logger.level'' (VStr ''DEBUG''),
         OpSet ''logger.file'' VNil, OpSet ''debug'' (VBool False)] NewOptions)
     (join ''.'' [''app'', ''logger'', ''level'']) = Some (VStr ''DEBUG'')"
proof -
  let ?ops = "[OpSet ''debug'' (VBool True), OpSetNx ''app.logger.level'' (VStr ''DEBUG''),
         OpSet ''logger.file'' VNil, OpSet ''debug'' (VBool False)]"
  let ?s = "runOps [''app''] ?ops NewOptions"
  have 1: "\<forall>x \<in> set ?ops. \<not> isStrMap (opVal x)"
    by simp
  have 2: "\<forall>a \<in> set ?ops. \<forall>b \<in> set ?ops. \<not> conflict (opKey [''app''] a) (opKey [''app''] b)"
    by code_simp
  have e: "entries ?s ''app.debug'' = Some (VBool False)"
    by code_simp
  have d: "descend (hierarchy ?s) [''app'', ''logger'', ''level''] = Some (VStr ''DEBUG'')
           \<and> \<not> isStrMap (VStr ''DEBUG'')"
    by code_simp
  from flat_tree_consistent [OF 1 2] e d show ?thesis
    by blast
qed

subsection \<open>Merging\<close>

lemma mergeMap_both:
  "map_of m key = Some (VMap zm) \<Longrightarrow>
   mergeMap m key (VMap vm) = AList.update key (VMap (mergeAll vm zm)) m"
  by (subst mergeMap.simps) (simp add: mergeAll_def)

lemma mergeMap_mismatch:
  "\<not> (\<exists>zm vm. map_of m key = Some (VMap zm) \<and> v = VMap vm) \<Longrightarrow>
   mergeMap m key v = AList.update key v m"
  by (subst mergeMap.simps) (auto split: option.splits val.splits)

lemma mergeMap_update: "\<exists>x. mergeMap m key v = AList.update key x m"
proof (cases "\<exists>zm vm. map_of m key = Some (VMap zm) \<and> v = VMap vm")
  case True
  then show ?thesis using mergeMap_both by blast
next
  case False
  then show ?thesis using mergeMap_mismatch by blast
qed

lemma mergeMap_other: "k \<noteq> key \<Longrightarrow> map_of (mergeMap m key v) k = map_of m k"
  using mergeMap_update [of m key v] by (auto simp add: update_conv')

lemma mergeMap_same:
  "map_of m key = map_of m' key \<Longrightarrow> map_of (mergeMap m key v) key = map_of (mergeMap m' key v) key"
proof (cases "\<exists>zm vm. map_of m key = Some (VMap zm) \<and> v = VMap vm")
  case True
  assume "map_of m key = map_of m' key"
  with True show ?thesis by (auto simp add: mergeMap_both update_conv')
next
  case False
  assume e: "map_of m key = map_of m' key"
  with False have "\<not> (\<exists>zm vm. map_of m' key = Some (VMap zm) \<and> v = VMap vm)" by simp
  with False show ?thesis by (simp add: mergeMap_mismatch update_conv')
qed

lemma map_of_mergeAll:
  "distinct (map fst vm) \<Longrightarrow>
   map_of (mergeAll vm zm) k =
     (case map_of vm k of None \<Rightarrow> map_of zm k | Some x \<Rightarrow> map_of (mergeMap zm k x) k)"
proof (induction vm arbitrary: zm k)
  case Nil
  then show ?case by (simp add: mergeAll_def)
next
  case (Cons a vm)
  obtain k1 x1 where a: "a = (k1, x1)" by (cases a)
  from Cons.prems a have d: "distinct (map fst vm)" and n: "k1 \<notin> fst ` set vm" by auto
  have step: "mergeAll (a # vm) zm = mergeAll vm (mergeMap zm k1 x1)"
    by (simp add: mergeAll_def a)
  show ?case
  proof (cases "k = k1")
    case True
    from n have "map_of vm k1 = None" by (simp add: map_of_eq_None_iff)
    with True a show ?thesis
      unfolding step by (simp add: Cons.IH [OF d])
  next
    case False
    then have o: "map_of (mergeMap zm k1 x1) k = map_of zm k" by (rule mergeMap_other)
    show ?thesis
      unfolding step using False a o mergeMap_same [OF o]
      by (simp add: Cons.IH [OF d] split: option.splits)
  qed
qed

lemma leafAt_Cons:
  "leafAt m (k # q) = (case map_of m k of None \<Rightarrow> None | Some x \<Rightarrow> leafOf x q)"
  by (simp add: leafAt_def leafOf_VMap)

lemma incoming_wins:
  "distinctKeys v \<Longrightarrow> leafOf v q = Some x \<Longrightarrow> leafAt (mergeMap m key v) (key # q) = Some x"
proof (induction q arbitrary: m key v)
  case Nil
  then have "\<not> isStrMap v" and "x = v"
    by (auto simp add: leafOf_def split: if_splits)
  then show ?case
    by (simp add: mergeMap_leaf leafAt_Cons update_conv' leafOf_leaf)
next
  case (Cons k q)
  from Cons.prems(2) obtain vm y where v: "v = VMap vm" and y: "map_of vm k = Some y"
    and l: "leafOf y q = Some x"
    by (cases v) (auto simp add: leafOf_VMap leafOf_leaf split: option.splits if_splits)
  from Cons.prems(1) v y have dk: "distinct (map fst vm)" and dy: "distinctKeys y"
    by (auto simp add: list_all_iff dest: map_of_SomeD)
  show ?case
  proof (cases "\<exists>zm. map_of m key = Some (VMap zm)")
    case True
    then obtain zm where zm: "map_of m key = Some (VMap zm)" by blast
    have "leafAt (mergeAll vm zm) (k # q) = leafAt (mergeMap zm k y) (k # q)"
      using y by (simp add: leafAt_Cons map_of_mergeAll [OF dk])
    also have "\<dots> = Some x" using Cons.IH [OF dy l] .
    finally show ?thesis
      using zm v by (simp add: mergeMap_both leafAt_Cons update_conv' leafAt_def [symmetric])
  next
    case False
    then have "mergeMap m key v = AList.update key v m"
      by (intro mergeMap_mismatch) auto
    then show ?thesis
      using Cons.prems(2) by (simp add: leafAt_Cons update_conv')
  qed
qed

lemma split_on_snoc: "c \<notin> set b \<Longrightarrow> split_on c (s @ c # b) = split_on c s @ [b]"
proof (induction s)
  case Nil
  then show ?case by (simp add: split_on_plain)
next
  case (Cons a s)
  then show ?case
    using split_on_nonempty [of c s]
    by (cases "split_on c s") auto
qed

lemma segments_child:
  "CHR ''.'' \<notin> set b \<Longrightarrow> segments (pk @ CHR ''.'' # b) = segments pk @ [b]"
  by (simp add: segments_def split_on_snoc)

lemma getMap_parent:
  "leafAt m (k # ks @ [b]) = Some v \<Longrightarrow> \<exists>vm. getMap m k ks = Some vm \<and> map_of vm b = Some v"
proof (induction ks arbitrary: m k)
  case Nil
  then obtain x where x: "map_of m k = Some x" and l: "leafOf x [b] = Some v"
    by (auto simp add: leafAt_Cons split: option.splits)
  then obtain vm where "x = VMap vm" "map_of vm b = Some v"
    by (cases x) (auto simp add: leafOf_VMap leafOf_leaf leafOf_def split: option.splits if_splits)
  with x show ?case by simp
next
  case (Cons a ks)
  then obtain x where x: "map_of m k = Some x" and l: "leafOf x (a # ks @ [b]) = Some v"
    by (auto simp add: leafAt_Cons split: option.splits)
  then obtain vm where vm: "x = VMap vm"
    by (cases x) (auto simp add: leafOf_leaf)
  with l have "leafAt vm (a # ks @ [b]) = Some v" by (simp add: leafAt_def)
  from Cons.IH [OF this] x vm show ?case by simp
qed

lemma leafAt_SetNx_same:
  assumes "\<not> isStrMap v" and "v \<noteq> VNil"
  shows "leafAt (hierarchy (SetNx key v s)) (segments key) = Some v"
proof -
  obtain k ks where sp: "segments key = k # ks"
    using dotfree_segments [of key] by (cases "segments key") (auto simp: dotfree_def)
  then have "split_on CHR ''.'' key = k # ks" by (simp add: segments_def)
  from SetNx_split [OF this] assms sp show ?thesis
    by (simp add: leafAt_insert)
qed

lemma leafAt_SetNx_other:
  assumes "\<not> isStrMap v" and "\<not> prefix q (segments key)" and "\<not> prefix (segments key) q"
  shows "leafAt (hierarchy (SetNx key v s)) q = leafAt (hierarchy s) q"
proof -
  obtain k ks where sp: "segments key = k # ks"
    using dotfree_segments [of key] by (cases "segments key") (auto simp: dotfree_def)
  then have "split_on CHR ''.'' key = k # ks" by (simp add: segments_def)
  from SetNx_split [OF this] assms sp show ?thesis
    by (auto simp add: leafAt_insert)
qed

lemma siblings_kept:
  assumes b: "CHR ''.'' \<notin> set b" and c: "CHR ''.'' \<notin> set c" and bc: "b \<noteq> c"
    and v1: "\<not> isStrMap v1" "v1 \<noteq> VNil" and v2: "\<not> isStrMap v2" "v2 \<noteq> VNil"
  shows "\<exists>vm. GetMap (SetNx (pk @ ''.'' @ c) v2 (SetNx (pk @ ''.'' @ b) v1 s)) pk = Some vm
              \<and> map_of vm b = Some v1 \<and> map_of vm c = Some v2"
proof -
  let ?s1 = "SetNx (pk @ ''.'' @ b) v1 s"
  let ?s2 = "SetNx (pk @ ''.'' @ c) v2 ?s1"
  obtain k ks where sp: "segments pk = k # ks"
    using dotfree_segments [of pk] by (cases "segments pk") (auto simp: dotfree_def)
  have sb: "segments (pk @ ''.'' @ b) = k # ks @ [b]" and sc: "segments (pk @ ''.'' @ c) = k # ks @ [c]"
    using sp b c by (simp_all add: segments_child)
  have 1: "leafAt (hierarchy ?s1) (k # ks @ [b]) = Some v1"
    using leafAt_SetNx_same [OF v1, of "pk @ ''.'' @ b" s] sb by simp
  have 2: "leafAt (hierarchy ?s2) (k # ks @ [c]) = Some v2"
    using leafAt_SetNx_same [OF v2, of "pk @ ''.'' @ c" ?s1] sc by simp
  have "leafAt (hierarchy ?s2) (k # ks @ [b]) = leafAt (hierarchy ?s1) (k # ks @ [b])"
    using bc sc by (intro leafAt_SetNx_other [OF v2(1)]) auto
  with 1 have 3: "leafAt (hierarchy ?s2) (k # ks @ [b]) = Some v1" by simp
  from getMap_parent [OF 3] getMap_parent [OF 2]
  obtain vm where "getMap (hierarchy ?s2) k ks = Some vm" "map_of vm b = Some v1" "map_of vm c = Some v2"
    by auto
  moreover have "GetMap ?s2 pk = getMap (hierarchy ?s2) k ks"
    using sp by (simp add: GetMap_def getMapNoLock_split segments_def)
  ultimately show ?thesis by simp
qed

text \<open>
  C4. When the node at the key and the incoming value are both maps, the node becomes the
  existing children with every incoming child merged in by the same procedure, key by key:
  children only in the existing map stay, and each incoming child is merged into the
  existing one of its key. Every leaf of an incoming value is found in the result at the
  same path under the key, so incoming values win. In every other case, where the key is
  absent or either side is not a map, the incoming value replaces the node. In any store,
  setting \<^verbatim>\<open>a.b\<close> to 1 and then \<^verbatim>\<open>a.c\<close> to 2 leaves a map at \<^verbatim>\<open>a\<close> that holds both, through
  \<^verbatim>\<open>SetNx\<close> and \<^verbatim>\<open>GetMap\<close> as well as through \<^verbatim>\<open>Set\<close> and \<^verbatim>\<open>GetMapR\<close>.
\<close>

theorem mergeMap_semantics:
  "(map_of m key = Some (VMap zm) \<and> distinct (map fst vm) \<longrightarrow>
      mergeMap m key (VMap vm) = AList.update key (VMap (mergeAll vm zm)) m
      \<and> (\<forall>k. map_of (mergeAll vm zm) k =
            (case map_of vm k of None \<Rightarrow> map_of zm k | Some x \<Rightarrow> map_of (mergeMap zm k x) k)))
   \<and> (distinctKeys v \<and> leafOf v q = Some x \<longrightarrow> leafAt (mergeMap m key v) (key # q) = Some x)
   \<and> (\<not> (\<exists>zm vm. map_of m key = Some (VMap zm) \<and> v = VMap vm) \<longrightarrow>
      mergeMap m key v = AList.update key v m)
   \<and> (\<exists>am. GetMap (SetNx ''a.c'' (VInt 2) (SetNx ''a.b'' (VInt 1) s)) ''a'' = Some am
           \<and> map_of am ''b'' = Some (VInt 1) \<and> map_of am ''c'' = Some (VInt 2))
   \<and> (\<exists>am. GetMapR rp (Set rp ''a.c'' (VInt 2) (Set rp ''a.b'' (VInt 1) s)) ''a'' = Some am
           \<and> map_of am ''b'' = Some (VInt 1) \<and> map_of am ''c'' = Some (VInt 2))"
proof (intro conjI impI)
  assume "map_of m key = Some (VMap zm) \<and> distinct (map fst vm)"
  then show "mergeMap m key (VMap vm) = AList.update key (VMap (mergeAll vm zm)) m"
    and "\<forall>k. map_of (mergeAll vm zm) k =
            (case map_of vm k of None \<Rightarrow> map_of zm k | Some x \<Rightarrow> map_of (mergeMap zm k x) k)"
    by (simp_all add: mergeMap_both map_of_mergeAll)
next
  assume "distinctKeys v \<and> leafOf v q = Some x"
  then show "leafAt (mergeMap m key v) (key # q) = Some x"
    by (simp add: incoming_wins)
next
  assume "\<not> (\<exists>zm vm. map_of m key = Some (VMap zm) \<and> v = VMap vm)"
  then show "mergeMap m key v = AList.update key v m"
    by (rule mergeMap_mismatch)
next
  show "\<exists>am. GetMap (SetNx ''a.c'' (VInt 2) (SetNx ''a.b'' (VInt 1) s)) ''a'' = Some am
           \<and> map_of am ''b'' = Some (VInt 1) \<and> map_of am ''c'' = Some (VInt 2)"
    using siblings_kept [of "''b''" "''c''" "VInt 1" "VInt 2" "''a''" s] by simp
next
  have w: "wrapWithRxxtPrefix rp (''a'' @ ''.'' @ x) = wrapWithRxxtPrefix rp ''a'' @ ''.'' @ x" for x
    by (simp add: wrapWithRxxtPrefix_def Let_def)
  show "\<exists>am. GetMapR rp (Set rp ''a.c'' (VInt 2) (Set rp ''a.b'' (VInt 1) s)) ''a'' = Some am
           \<and> map_of am ''b'' = Some (VInt 1) \<and> map_of am ''c'' = Some (VInt 2)"
    using siblings_kept [of "''b''" "''c''" "VInt 1" "VInt 2" "wrapWithRxxtPrefix rp ''a''" s]
      w [of "''b''"] w [of "''c''"]
    by (simp add: GetMapR_def Set_def)
qed

theorem mergeMap_semantics_witness:
  "mergeMap [(''a'', VMap [(''b'', VInt 1), (''d'', VMap [(''e'', VInt 5)])])] ''a''
     (VMap [(''c'', VInt 2), (''d'', VMap [(''e'', VInt 6), (''f'', VInt 7)])])
   = [(''a'', VMap [(''b'', VInt 1), (''d'', VMap [(''e'', VInt 6), (''f'', VInt 7)]), (''c'', VInt 2)])]
   \<and> leafAt (mergeMap [(''a'', VMap [(''b'', VInt 1), (''d'', VMap [(''e'', VInt 5)])])] ''a''
        (VMap [(''c'', VInt 2), (''d'', VMap [(''e'', VInt 6), (''f'', VInt 7)])])) [''a'', ''d'', ''e'']
     = Some (VInt 6)
   \<and> mergeMap [(''a'', VInt 1)] ''a'' (VMap [(''b'', VInt 2)]) = [(''a'', VMap [(''b'', VInt 2)])]
   \<and> mergeMap [(''a'', VMap [(''b'', VInt 2)])] ''a'' (VInt 1) = [(''a'', VInt 1)]"
proof -
  let ?zm = "[(''b'', VInt 1), (''d'', VMap [(''e'', VInt 5)])]"
  let ?m = "[(''a'', VMap ?zm)]"
  let ?vm = "[(''c'', VInt 2), (''d'', VMap [(''e'', VInt 6), (''f'', VInt 7)])]"
  have h1: "map_of ?m ''a'' = Some (VMap ?zm) \<and> distinct (map fst ?vm)"
    by simp
  have h2: "distinctKeys (VMap ?vm) \<and> leafOf (VMap ?vm) [''d'', ''e''] = Some (VInt 6)"
    by code_simp
  have r: "AList.update ''a'' (VMap (mergeAll ?vm ?zm)) ?m
           = [(''a'', VMap [(''b'', VInt 1), (''d'', VMap [(''e'', VInt 6), (''f'', VInt 7)]), (''c'', VInt 2)])]"
    by code_simp
  have h3: "\<not> (\<exists>zm vm. map_of [(''a'', VInt 1)] ''a'' = Some (VMap zm) \<and> VMap [(''b'', VInt 2)] = VMap vm)"
    by simp
  have h4: "\<not> (\<exists>zm vm. map_of [(''a'', VMap [(''b'', VInt 2)])] ''a'' = Some (VMap zm) \<and> VInt 1 = VMap vm)"
    by simp
  have a: "mergeMap ?m ''a'' (VMap ?vm) = AList.update ''a'' (VMap (mergeAll ?vm ?zm)) ?m"
    using mergeMap_semantics [where m = ?m and key = "''a''" and zm = ?zm and vm = ?vm] h1 by blast
  have b: "leafAt (mergeMap ?m ''a'' (VMap ?vm)) [''a'', ''d'', ''e''] = Some (VInt 6)"
    using mergeMap_semantics [where m = ?m and key = "''a''" and v = "VMap ?vm"
        and q = "[''d'', ''e'']" and x = "VInt 6"] h2 by blast
  have c: "mergeMap [(''a'', VInt 1)] ''a'' (VMap [(''b'', VInt 2)])
           = AList.update ''a'' (VMap [(''b'', VInt 2)]) [(''a'', VInt 1)]"
    using mergeMap_semantics [where m = "[(''a'', VInt 1)]" and key = "''a''"
        and v = "VMap [(''b'', VInt 2)]"] h3 by blast
  have d: "mergeMap [(''a'', VMap [(''b'', VInt 2)])] ''a'' (VInt 1)
           = AList.update ''a'' (VInt 1) [(''a'', VMap [(''b'', VInt 2)])]"
    using mergeMap_semantics [where m = "[(''a'', VMap [(''b'', VInt 2)])]" and key = "''a''"
        and v = "VInt 1"] h4 by blast
  show ?thesis
    using a b c d r by simp
qed

subsection \<open>Ingestion as a sequence of writes\<close>

lemma writeAll_append: "writeAll (W1 @ W2) s = writeAll W2 (writeAll W1 s)"
  by (induction W1 arbitrary: s) simp_all

lemma loopMap_writes:
  "loopMap kdot m s = writeAll (writesOf kdot m) s"
  "loopIxMap kdot' m' s' = writeAll (writesOfIx kdot' m') s'"
proof (induction kdot m s and kdot' m' s' rule: loopMap_loopIxMap.induct)
  case (2 kdot k v m s)
  then show ?case
    by (cases v) (simp_all add: writeAll_append)
next
  case (4 kdot k v m s)
  then show ?case
    by (cases v) (simp_all add: writeAll_append)
qed simp_all

lemma writes_not_IxMap:
  "kv \<in> set (writesOf kdot m) \<Longrightarrow> \<not> isIxMap (snd kv)"
  "kv \<in> set (writesOfIx kdot' m') \<Longrightarrow> \<not> isIxMap (snd kv)"
proof (induction kdot m and kdot' m' rule: writesOf_writesOfIx.induct)
  case (2 kdot k v m)
  then show ?case
    by (cases v) auto
next
  case (4 kdot k v m)
  then show ?case
    by (cases v) auto
qed simp_all

lemma entries_NewOptions: "entries NewOptions k = None"
  by (simp add: NewOptions_def)

lemma entries_writeAll:
  "entries (writeAll W s) k = Some x \<Longrightarrow> (k, x) \<in> set W \<or> entries s k = Some x"
proof (induction W arbitrary: s)
  case Nil
  then show ?case by simp
next
  case (Cons kv W)
  from Cons.IH [of "SetNx (fst kv) (snd kv) s"] Cons.prems
  have "(k, x) \<in> set W \<or> entries (SetNx (fst kv) (snd kv) s) k = Some x" by simp
  then show ?case
    by (cases kv) (auto simp add: SetNx_def Let_def split: if_splits)
qed

lemma dom_SetNx_mono: "dom (entries s) \<subseteq> dom (entries (SetNx key v s))"
  by (auto simp add: SetNx_def Let_def)

lemma dom_writeAll_mono: "dom (entries s) \<subseteq> dom (entries (writeAll W s))"
proof (induction W arbitrary: s)
  case Nil
  then show ?case by simp
next
  case (Cons kv W)
  show ?case
    using dom_SetNx_mono [of s "fst kv" "snd kv"] Cons [of "SetNx (fst kv) (snd kv) s"] by auto
qed

lemma ingested_iff:
  "(k, x) \<in> set (ingested d) \<longleftrightarrow> entries (loopMap [] d NewOptions) k = Some x"
proof
  assume "(k, x) \<in> set (ingested d)"
  then show "entries (loopMap [] d NewOptions) k = Some x"
    by (simp add: ingested_def kept_def)
next
  assume e: "entries (loopMap [] d NewOptions) k = Some x"
  then have "entries (writeAll (writesOf [] d) NewOptions) k = Some x"
    by (simp add: loopMap_writes(1))
  from entries_writeAll [OF this] have "(k, x) \<in> set (writesOf [] d)"
    by (simp add: entries_NewOptions)
  with e show "(k, x) \<in> set (ingested d)"
    by (simp add: ingested_def kept_def)
qed

lemma ingested_writes: "set (ingested d) \<subseteq> set (writesOf [] d)"
  by (auto simp add: ingested_def kept_def)

subsection \<open>Paths in the tree after a write\<close>

lemma reach_leaf: "\<not> isStrMap v \<Longrightarrow> reach v q = (if q = [] then Some v else None)"
  by (cases q; cases v; simp)

lemma reach_nest: "\<not> isStrMap v \<Longrightarrow> reach (nest ks v) q \<noteq> None \<Longrightarrow> prefix q ks"
proof (induction ks arbitrary: q)
  case Nil
  then show ?case by (simp add: reach_leaf split: if_splits)
next
  case (Cons k ks)
  then show ?case
    by (cases q) (auto split: if_splits)
qed

lemma descend_update:
  "descend (AList.update k y m) (k' # q) = (if k' = k then reach y q else descend m (k' # q))"
  by (simp add: descend_def update_conv')

lemma descend_insert:
  "\<not> isStrMap v \<Longrightarrow> descend (mergeMap m k (nest ks v)) q \<noteq> None \<Longrightarrow>
     prefix q (k # ks) \<or> descend m q \<noteq> None"
proof (induction ks arbitrary: m k q)
  case Nil
  then show ?case
    by (cases q) (auto simp add: mergeMap_leaf descend_update reach_leaf split: if_splits)
next
  case (Cons k' ks)
  show ?case
  proof (cases q)
    case Nil
    then show ?thesis by simp
  next
    case (Cons a q')
    show ?thesis
    proof (cases "a = k")
      case False
      have "\<exists>x. mergeMap m k (nest (k' # ks) v) = AList.update k x m"
        by (rule mergeMap_update)
      with False Cons Cons.prems(2) show ?thesis
        by (auto simp add: descend_update)
    next
      case True
      show ?thesis
      proof (cases "\<exists>zm. map_of m k = Some (VMap zm)")
        case ex: True
        then obtain zm where zm: "map_of m k = Some (VMap zm)" by blast
        have m: "mergeMap m k (nest (k' # ks) v) = AList.update k (VMap (mergeMap zm k' (nest ks v))) m"
          using zm by (simp add: mergeMap_single)
        from Cons.prems(2) have "descend (mergeMap zm k' (nest ks v)) q' \<noteq> None"
          unfolding m Cons True descend_update by (simp add: descend_def)
        from Cons.IH [OF Cons.prems(1) this]
        have "prefix q' (k' # ks) \<or> descend zm q' \<noteq> None" .
        moreover have "descend m (k # q') = descend zm q'"
          using zm by (simp add: descend_def)
        ultimately show ?thesis
          using Cons True by auto
      next
        case nex: False
        then have m: "mergeMap m k (nest (k' # ks) v) = AList.update k (nest (k' # ks) v) m"
          by (intro mergeMap_fresh) blast
        from Cons.prems(2) have "reach (nest (k' # ks) v) q' \<noteq> None"
          unfolding m Cons True by (simp add: descend_update)
        from reach_nest [OF Cons.prems(1) this] show ?thesis
          using Cons True by simp
      qed
    qed
  qed
qed

lemma leafOf_prefix:
  "leafOf v p = Some x \<Longrightarrow> leafOf v (p @ r) = Some y \<Longrightarrow> r = []"
proof (induction p arbitrary: v)
  case Nil
  then have "\<not> isStrMap v" by (auto simp add: leafOf_def split: if_splits)
  with Nil show ?case by (simp add: leafOf_leaf split: if_splits)
next
  case (Cons k p)
  then show ?case
    by (cases v) (auto simp add: leafOf_VMap leafOf_leaf split: option.splits if_splits)
qed

lemma descend_empty: "descend [] q \<noteq> None \<Longrightarrow> q = []"
  by (cases q) (simp_all add: descend_def)

lemma leafOf_nest_below: "leafOf (nest ks v) q = Some x \<Longrightarrow> prefix ks q"
proof (induction ks arbitrary: q)
  case Nil
  then show ?case by simp
next
  case (Cons k ks)
  then show ?case
    by (cases q) (auto simp add: leafOf_VMap split: if_splits option.splits)
qed

lemma leafAt_insert_any:
  "\<not> prefix (k # ks) q \<Longrightarrow>
   leafAt (mergeMap m k (nest ks v)) q = (if prefix q (k # ks) then None else leafAt m q)"
proof (induction ks arbitrary: m k q)
  case Nil
  obtain y where m: "mergeMap m k (nest [] v) = AList.update k y m"
    using mergeMap_update by blast
  show ?case
    unfolding m using Nil
    by (cases q) (auto simp add: leafAt_update)
next
  case (Cons k' ks)
  show ?case
  proof (cases q)
    case Nil
    then show ?thesis by (simp add: leafAt_def leafOf_VMap)
  next
    case q: (Cons a q')
    show ?thesis
    proof (cases "a = k")
      case False
      obtain y where m: "mergeMap m k (nest (k' # ks) v) = AList.update k y m"
        using mergeMap_update by blast
      show ?thesis
        unfolding m using False q by (simp add: leafAt_update)
    next
      case True
      with q Cons.prems have np: "\<not> prefix (k' # ks) q'" by simp
      show ?thesis
      proof (cases "\<exists>zm. map_of m k = Some (VMap zm)")
        case True
        then obtain zm where zm: "map_of m k = Some (VMap zm)" by blast
        have m: "mergeMap m k (nest (k' # ks) v) = AList.update k (VMap (mergeMap zm k' (nest ks v))) m"
          using zm by (simp add: mergeMap_single)
        have old: "leafAt m (k # q') = leafAt zm q'"
          using zm by (simp add: leafAt_def leafOf_VMap)
        show ?thesis
          unfolding m using Cons.IH [OF np, of zm] old q \<open>a = k\<close>
          by (simp add: leafAt_update leafAt_def [symmetric])
      next
        case False
        then have m: "mergeMap m k (nest (k' # ks) v) = AList.update k (nest (k' # ks) v) m"
          by (intro mergeMap_fresh) blast
        have new: "leafOf (nest (k' # ks) v) q' = None"
          using leafOf_nest_below [of "k' # ks" v q'] np by (cases "leafOf (nest (k' # ks) v) q'") auto
        have old: "leafAt m (k # q') = None" if "\<not> prefix q' (k' # ks)"
        proof (cases "map_of m k")
          case None
          then show ?thesis by (simp add: leafAt_def leafOf_VMap)
        next
          case (Some x)
          with False have "\<not> isStrMap x" by (cases x) auto
          moreover from that have "q' \<noteq> []" by auto
          ultimately show ?thesis using Some by (simp add: leafAt_def leafOf_VMap leafOf_leaf)
        qed
        show ?thesis
          unfolding m using new old q \<open>a = k\<close>
          by (simp add: leafAt_update del: nest.simps)
      qed
    qed
  qed
qed

lemma distinctKeys_update:
  "distinctKeys (VMap m) \<Longrightarrow> distinctKeys y \<Longrightarrow> distinctKeys (VMap (AList.update k y m))"
proof -
  assume a: "distinctKeys (VMap m)" "distinctKeys y"
  have "set (AList.update k y m) \<subseteq> insert (k, y) (set m)"
    by (induction m) auto
  with a show ?thesis
    by (auto simp add: distinct_update list_all_iff)
qed

lemma distinctKeys_nest: "distinctKeys v \<Longrightarrow> distinctKeys (nest ks v)"
  by (induction ks) simp_all

lemma distinctKeys_mergeMap:
  "distinctKeys (VMap m) \<Longrightarrow> distinctKeys v \<Longrightarrow> distinctKeys (VMap (mergeMap m k v))"
proof (induction "size v" arbitrary: m k v rule: less_induct)
  case less
  show ?case
  proof (cases "\<exists>zm vm. map_of m k = Some (VMap zm) \<and> v = VMap vm")
    case False
    then have "mergeMap m k v = AList.update k v m" by (rule mergeMap_mismatch)
    with less.prems show ?thesis
      by (simp add: distinctKeys_update del: distinctKeys.simps)
  next
    case True
    then obtain zm vm where zm: "map_of m k = Some (VMap zm)" and v: "v = VMap vm" by blast
    have "(k, VMap zm) \<in> set m" using zm by (rule map_of_SomeD)
    then have "distinctKeys (snd (k, VMap zm))"
      using less.prems(1) unfolding distinctKeys.simps list_all_iff by blast
    then have dz: "distinctKeys (VMap zm)" by (simp del: distinctKeys.simps)
    have small: "kv \<in> set xs \<Longrightarrow> size (snd kv) < size (VMap xs)" for kv :: "string \<times> val" and xs
      by (induction xs) auto
    have fold: "set xs \<subseteq> set vm \<Longrightarrow> distinctKeys (VMap z) \<Longrightarrow>
                distinctKeys (VMap (fold (\<lambda>kv zm'. mergeMap zm' (fst kv) (snd kv)) xs z))" for xs z
    proof (induction xs arbitrary: z)
      case Nil
      then show ?case by simp
    next
      case (Cons kv xs)
      then have in_vm: "kv \<in> set vm" by simp
      then have "size (snd kv) < size v" using small v by blast
      moreover have "distinctKeys (snd kv)"
        using less.prems(2) in_vm unfolding v distinctKeys.simps list_all_iff by blast
      ultimately have "distinctKeys (VMap (mergeMap z (fst kv) (snd kv)))"
        using Cons.prems(2) by (intro less.hyps)
      with Cons show ?case by (simp del: distinctKeys.simps)
    qed
    have "distinctKeys (VMap (mergeAll vm zm))"
      unfolding mergeAll_def using dz by (intro fold) simp_all
    then show ?thesis
      using zm v less.prems(1)
      by (simp add: mergeMap_both distinctKeys_update del: distinctKeys.simps)
  qed
qed

lemma distinctKeys_SetNx_any:
  assumes "distinctKeys (VMap (hierarchy s))" and "distinctKeys v"
  shows "distinctKeys (VMap (hierarchy (SetNx key v s)))"
proof -
  obtain k ks where "split_on CHR ''.'' key = k # ks"
    using split_on_nonempty [of "CHR ''.''" key] by (cases "split_on CHR ''.'' key") auto
  from SetNx_split [OF this] assms show ?thesis
    by (auto simp add: distinctKeys_mergeMap distinctKeys_nest simp del: distinctKeys.simps)
qed

lemma distinctKeys_writeAll_any:
  "distinctKeys (VMap (hierarchy s)) \<Longrightarrow> \<forall>kv \<in> set W. distinctKeys (snd kv) \<Longrightarrow>
     distinctKeys (VMap (hierarchy (writeAll W s)))"
proof (induction W arbitrary: s)
  case Nil
  then show ?case by simp
next
  case (Cons kv W)
  then show ?case
    by (simp add: distinctKeys_SetNx_any del: distinctKeys.simps)
qed

subsection \<open>The flat map covers the tree\<close>

lemma covered_NewOptions: "covered NewOptions"
  by (simp add: covered_def NewOptions_def leafAt_def leafOf_VMap split: list.splits)

lemma covered_SetNx:
  assumes inv: "covered s"
    and compat: "key \<in> dom (entries (SetNx key v s)) \<Longrightarrow> \<forall>k \<in> dom (entries s). \<not> conflict k key"
  shows "covered (SetNx key v s)"
proof -
  obtain k ks where sp: "segments key = k # ks"
    using dotfree_segments [of key] by (cases "segments key") (auto simp: dotfree_def)
  then have sp': "split_on CHR ''.'' key = k # ks" by (simp add: segments_def)
  have dfk: "dotfree (k # ks)" using dotfree_segments [of key] sp by simp
  have jk: "join ''.'' (k # ks) = key" using join_segments [of key] sp by simp
  show ?thesis
  proof (cases "v = VNil \<and> descend (hierarchy s) (k # ks) \<noteq> None")
    case True
    then show ?thesis using inv by (simp add: SetNx_split [OF sp'])
  next
    case False
    let ?h' = "mergeMap (hierarchy s) k (nest ks v)"
    let ?s' = "s\<lparr>entries := (entries s)(key \<mapsto> v), hierarchy := ?h'\<rparr>"
    have eq: "SetNx key v s = ?s'"
      using False by (auto simp add: SetNx_split [OF sp'])
    have nc: "\<forall>k' \<in> dom (entries s). \<not> conflict k' key"
      using compat unfolding eq by simp
    have other: "join ''.'' p \<noteq> key" if "dotfree p" "p \<noteq> k # ks" for p
      using segments_join [OF that(1)] sp that(2) by auto
    have A: "\<exists>p w. prefix p q \<and> dotfree p \<and> entries ?s' (join ''.'' p) = Some w
                 \<and> (isStrMap w \<or> (p = q \<and> w = x))"
      if l: "leafAt ?h' q = Some x" for q x
    proof (cases "prefix (k # ks) q")
      case pre: True
      show ?thesis
      proof (cases "isStrMap v")
        case True
        with pre dfk jk show ?thesis
          by (intro exI [of _ "k # ks"] exI [of _ v]) simp
      next
        case False
        with l pre have "q = k # ks \<and> x = v"
          by (auto simp add: leafAt_insert split: if_splits)
        with dfk jk show ?thesis
          by (intro exI [of _ "k # ks"] exI [of _ v]) simp
      qed
    next
      case False
      from l leafAt_insert_any [OF False, of "hierarchy s" v]
      have np: "\<not> prefix q (k # ks)" and old: "leafAt (hierarchy s) q = Some x"
        by (auto split: if_splits)
      from inv old obtain p w where p: "prefix p q" "dotfree p"
        "entries s (join ''.'' p) = Some w" "isStrMap w \<or> (p = q \<and> w = x)"
        unfolding covered_def by blast
      have "p \<noteq> k # ks" using p(1) False by auto
      then have "join ''.'' p \<noteq> key" using p(2) other by blast
      with p show ?thesis
        by (intro exI [of _ p] exI [of _ w]) simp
    qed
    have B: "leafAt ?h' q = Some w"
      if q: "dotfree q" "entries ?s' (join ''.'' q) = Some w" "\<not> isStrMap w" for q w
    proof (cases "q = k # ks")
      case True
      with q jk have "w = v" by simp
      with q(3) True show ?thesis by (simp add: leafAt_insert)
    next
      case False
      then have ne: "join ''.'' q \<noteq> key" using q(1) other by blast
      with q(2) have e: "entries s (join ''.'' q) = Some w" by simp
      then have "\<not> conflict (join ''.'' q) key" using nc by blast
      then have "\<not> prefix q (k # ks) \<and> \<not> prefix (k # ks) q"
        using False segments_join [OF q(1)] sp
        by (auto simp add: conflict_def strict_prefix_def)
      then have "leafAt ?h' q = leafAt (hierarchy s) q"
        by (simp add: leafAt_insert_any)
      also have "\<dots> = Some w"
        using inv q(1,3) e unfolding covered_def by blast
      finally show ?thesis .
    qed
    show ?thesis
      unfolding eq covered_def using A B by simp
  qed
qed

lemma covered_writeAll:
  assumes "covered s"
    and "\<forall>a \<in> dom (entries (writeAll W s)). \<forall>b \<in> dom (entries (writeAll W s)). \<not> conflict a b"
  shows "covered (writeAll W s)"
  using assms
proof (induction W arbitrary: s)
  case Nil
  then show ?case by simp
next
  case (Cons kv W)
  let ?s' = "SetNx (fst kv) (snd kv) s"
  have sub: "dom (entries ?s') \<subseteq> dom (entries (writeAll W ?s'))"
    by (rule dom_writeAll_mono)
  have "covered ?s'"
  proof (rule covered_SetNx [OF Cons.prems(1)])
    assume "fst kv \<in> dom (entries ?s')"
    with sub have k: "fst kv \<in> dom (entries (writeAll W ?s'))" by blast
    show "\<forall>k \<in> dom (entries s). \<not> conflict k (fst kv)"
    proof
      fix a assume "a \<in> dom (entries s)"
      with dom_SetNx_mono [of s "fst kv" "snd kv"] sub
      have "a \<in> dom (entries (writeAll W ?s'))" by blast
      with k Cons.prems(2) show "\<not> conflict a (fst kv)" by simp
    qed
  qed
  with Cons.prems(2) have "covered (writeAll W ?s')"
    by (intro Cons.IH) simp_all
  then show ?case by simp
qed

lemma covered_mirrored:
  assumes "covered s" and "\<forall>k v. entries s k = Some v \<longrightarrow> \<not> isStrMap v"
  shows "mirrored s"
proof -
  have "leafAt (hierarchy s) q = (if dotfree q then entries s (join ''.'' q) else None)" for q
  proof (cases "leafAt (hierarchy s) q")
    case None
    show ?thesis
    proof (cases "dotfree q \<and> entries s (join ''.'' q) \<noteq> None")
      case True
      then obtain v where v: "entries s (join ''.'' q) = Some v" by auto
      with assms(2) have "\<not> isStrMap v" by blast
      with assms(1) True v have "leafAt (hierarchy s) q = Some v"
        unfolding covered_def by blast
      with None show ?thesis by simp
    next
      case False
      with None show ?thesis by auto
    qed
  next
    case (Some x)
    with assms(1) obtain p v where p: "prefix p q" "dotfree p"
      "entries s (join ''.'' p) = Some v" "isStrMap v \<or> (p = q \<and> v = x)"
      unfolding covered_def by blast
    with assms(2) have "p = q \<and> v = x" by blast
    with p Some show ?thesis by simp
  qed
  then show ?thesis unfolding mirrored_def by blast
qed

lemma steady_mirrored:
  assumes st: "steady (ingested d)"
  shows "mirrored (loopMap [] d NewOptions)"
proof -
  let ?s1 = "loopMap [] d NewOptions"
  have dom: "\<exists>x. (a, x) \<in> set (ingested d)" if "a \<in> dom (entries ?s1)" for a
    using that ingested_iff [of a _ d] by auto
  have nc: "\<forall>a \<in> dom (entries ?s1). \<forall>b \<in> dom (entries ?s1). \<not> conflict a b"
  proof (intro ballI)
    fix a b assume "a \<in> dom (entries ?s1)" "b \<in> dom (entries ?s1)"
    then obtain x y where "(a, x) \<in> set (ingested d)" "(b, y) \<in> set (ingested d)"
      using dom by blast
    with st show "\<not> conflict a b" unfolding steady_def by force
  qed
  have "covered (writeAll (writesOf [] d) NewOptions)"
    using nc by (intro covered_writeAll covered_NewOptions) (simp add: loopMap_writes(1))
  then have c: "covered ?s1" by (simp add: loopMap_writes(1))
  have "\<not> isStrMap v" if "entries ?s1 k = Some v" for k v
  proof -
    from that have "(k, v) \<in> set (ingested d)" by (simp add: ingested_iff)
    with st show ?thesis unfolding steady_def by force
  qed
  with c show ?thesis by (intro covered_mirrored) blast+
qed

subsection \<open>Leaves of a tree\<close>

lemma leaves_iff:
  "distinctKeys v \<Longrightarrow> (q, x) \<in> set (leavesOf v) \<longleftrightarrow> leafOf v q = Some x"
proof (induction "size v" arbitrary: v q x rule: less_induct)
  case less
  show ?case
  proof (cases "isStrMap v")
    case False
    then have "leavesOf v = [([], v)]" by (cases v) simp_all
    with False show ?thesis by (auto simp add: leafOf_leaf)
  next
    case True
    then obtain m where v: "v = VMap m" by (cases v) simp_all
    from less.prems v have d: "distinct (map fst m)" by simp
    have ih: "(p, x) \<in> set (leavesOf y) \<longleftrightarrow> leafOf y p = Some x" if "(k, y) \<in> set m" for k y p
    proof -
      from that have "size y < size v" unfolding v by (induction m) auto
      moreover from that less.prems v have "distinctKeys y" by (auto simp add: list_all_iff)
      ultimately show ?thesis by (rule less.hyps)
    qed
    show ?thesis
    proof (cases q)
      case Nil
      then show ?thesis unfolding v by (auto simp add: leafOf_VMap)
    next
      case (Cons k q')
      have "(q, x) \<in> set (leavesOf v) \<longleftrightarrow> (\<exists>y. (k, y) \<in> set m \<and> (q', x) \<in> set (leavesOf y))"
        unfolding v Cons by force
      also have "\<dots> \<longleftrightarrow> (\<exists>y. (k, y) \<in> set m \<and> leafOf y q' = Some x)"
        using ih by blast
      also have "\<dots> \<longleftrightarrow> (\<exists>y. map_of m k = Some y \<and> leafOf y q' = Some x)"
        using d by (auto dest: map_of_SomeD)
      also have "\<dots> \<longleftrightarrow> leafOf v q = Some x"
        unfolding v Cons by (auto simp add: leafOf_VMap split: option.splits)
      finally show ?thesis .
    qed
  qed
qed

lemma leaves_distinct: "distinctKeys v \<Longrightarrow> distinct (map fst (leavesOf v))"
proof (induction "size v" arbitrary: v rule: less_induct)
  case less
  show ?case
  proof (cases "isStrMap v")
    case False
    then have "leavesOf v = [([], v)]" by (cases v) simp_all
    then show ?thesis by simp
  next
    case True
    then obtain m where v: "v = VMap m" by (cases v) simp_all
    have ih: "distinct (map fst (leavesOf y))" if "(k, y) \<in> set m" for k y
    proof -
      from that have "size y < size v" unfolding v by (induction m) auto
      moreover from that less.prems v have "distinctKeys y" by (auto simp add: list_all_iff)
      ultimately show ?thesis by (rule less.hyps)
    qed
    have "distinct (map fst m') \<Longrightarrow> set m' \<subseteq> set m \<Longrightarrow>
          distinct (map fst (leavesOf (VMap m')))
          \<and> (\<forall>p \<in> fst ` set (leavesOf (VMap m')). p \<noteq> [] \<and> hd p \<in> fst ` set m')" for m'
    proof (induction m')
      case Nil
      then show ?case by simp
    next
      case (Cons kv m')
      obtain k y where kv: "kv = (k, y)" by (cases kv)
      from Cons.prems kv have ky: "(k, y) \<in> set m" and k: "k \<notin> fst ` set m'"
        and d: "distinct (map fst m')" and sub: "set m' \<subseteq> set m"
        by auto
      from Cons.IH [OF d sub] have 1: "distinct (map fst (leavesOf (VMap m')))"
        and 2: "\<forall>p \<in> fst ` set (leavesOf (VMap m')). p \<noteq> [] \<and> hd p \<in> fst ` set m'"
        by simp_all
      have 3: "distinct (map fst (map (\<lambda>px. (k # fst px, snd px)) (leavesOf y)))"
        using ih [OF ky] by (simp add: distinct_map comp_def inj_on_def)
      have e: "leavesOf (VMap (kv # m')) =
               map (\<lambda>px. (k # fst px, snd px)) (leavesOf y) @ leavesOf (VMap m')"
        by (simp add: kv)
      have 4: "(k # a, b) \<notin> set (leavesOf (VMap m'))" for a b
        using 2 k by force
      have 5: "\<forall>p \<in> fst ` set (map (\<lambda>px. (k # fst px, snd px)) (leavesOf y)). p \<noteq> [] \<and> hd p = k"
        by auto
      show ?case
        unfolding e using 1 2 3 4 5 by (auto simp add: image_Un kv simp del: leavesOf.simps)
    qed
    from this [of m] less.prems v show ?thesis by simp
  qed
qed

lemma foldl_mx:
  "pre \<noteq> [] \<Longrightarrow> foldl mx pre q = pre @ concat (map ((@) ''.'') q)"
proof (induction q arbitrary: pre)
  case Nil
  then show ?case by simp
next
  case (Cons k q)
  have "mx pre k = pre @ ''.'' @ k" using Cons.prems by (simp add: mx_def)
  moreover have "mx pre k \<noteq> []" using Cons.prems by (simp add: mx_def)
  ultimately show ?case using Cons.IH [of "mx pre k"] by simp
qed

lemma join_concat: "join ''.'' (k # q) = k @ concat (map ((@) ''.'') q)"
  by (induction q arbitrary: k) (simp_all add: join_Cons)

lemma mxjoin: "okStart q \<Longrightarrow> foldl mx [] q = join ''.'' q"
proof (cases q)
  case Nil
  assume "okStart q"
  with Nil show ?thesis by (simp add: okStart_def)
next
  case (Cons k q')
  assume ok: "okStart q"
  have m: "mx [] k = k" by (simp add: mx_def)
  show ?thesis
  proof (cases "k = []")
    case True
    with ok Cons have "q' = []" by (simp add: okStart_def)
    with True Cons m show ?thesis by simp
  next
    case False
    with Cons m show ?thesis
      by (simp add: foldl_mx join_concat)
  qed
qed

lemma okStart_segments: "\<not> leadingDot key \<Longrightarrow> okStart (segments key)"
proof (cases key)
  case Nil
  then show ?thesis by (simp add: okStart_def segments_def)
next
  case (Cons c r)
  assume "\<not> leadingDot key"
  with Cons have c: "c \<noteq> CHR ''.''" by (simp add: leadingDot_def)
  obtain h t where "split_on CHR ''.'' r = h # t"
    using split_on_nonempty [of "CHR ''.''" r] by (cases "split_on CHR ''.'' r") auto
  with Cons c show ?thesis
    by (simp add: okStart_def segments_def)
qed

subsection \<open>The store after writing a tidy list of leaves\<close>

declare leavesOf.simps [simp del]

lemma writes_leaves:
  "\<forall>px \<in> set (leavesOf (VMap m)). \<not> isIxMap (snd px) \<Longrightarrow>
     writesOf kdot m = map (\<lambda>px. (foldl mx kdot (fst px), snd px)) (leavesOf (VMap m))"
proof (induction "size (VMap m)" arbitrary: m kdot rule: less_induct)
  case less
  show ?case
  proof (cases m)
    case Nil
    then show ?thesis by (simp add: leavesOf.simps)
  next
    case (Cons kv m')
    obtain k v where kv: "kv = (k, v)" by (cases kv)
    have e: "leavesOf (VMap m) =
             map (\<lambda>px. (k # fst px, snd px)) (leavesOf v) @ leavesOf (VMap m')"
      by (simp add: Cons kv leavesOf.simps)
    have sz: "size (VMap m') < size (VMap m)" using Cons by simp
    have rest: "writesOf kdot m' = map (\<lambda>px. (foldl mx kdot (fst px), snd px)) (leavesOf (VMap m'))"
      using less.prems e by (intro less.hyps [OF sz]) auto
    have hd: "(case v of
          VIxMap vm \<Rightarrow> writesOfIx (mx kdot k) vm
        | VMap vm \<Rightarrow> writesOf (mx kdot k) vm
        | _ \<Rightarrow> [(mx kdot k, v)])
        = map (\<lambda>px. (foldl mx kdot (fst px), snd px))
            (map (\<lambda>px. (k # fst px, snd px)) (leavesOf v))"
    proof (cases v)
      case (VMap vm)
      have "size (VMap vm) < size (VMap m)" using Cons kv VMap by simp
      moreover have "\<forall>px \<in> set (leavesOf (VMap vm)). \<not> isIxMap (snd px)"
      proof
        fix px assume "px \<in> set (leavesOf (VMap vm))"
        then have "(k # fst px, snd px) \<in> set (leavesOf (VMap m))"
          unfolding e VMap by force
        with less.prems show "\<not> isIxMap (snd px)" by force
      qed
      ultimately have "writesOf (mx kdot k) vm
          = map (\<lambda>px. (foldl mx (mx kdot k) (fst px), snd px)) (leavesOf (VMap vm))"
        by (rule less.hyps)
      then show ?thesis using VMap by (simp add: comp_def)
    next
      case (VIxMap vm)
      then have "([], v) \<in> set (leavesOf v)" by (simp add: leavesOf.simps)
      with less.prems e VIxMap show ?thesis by force
    qed (simp_all add: leavesOf.simps)
    show ?thesis
      unfolding e using hd rest by (simp add: Cons kv)
  qed
qed

lemma tidy_butlast: "tidy (L @ [px]) \<Longrightarrow> tidy L"
  by (auto simp add: tidy_def)

lemma flatOf_distinct: "tidy L \<Longrightarrow> distinct (map fst (flatOf L))"
proof -
  assume t: "tidy L"
  have "inj_on (join ''.'') (fst ` set L)"
  proof (rule inj_onI)
    fix p q assume "p \<in> fst ` set L" "q \<in> fst ` set L" "join ''.'' p = join ''.'' q"
    moreover from this t have "dotfree p" "dotfree q"
      by (auto simp add: tidy_def)
    ultimately show "p = q" by (metis segments_join)
  qed
  moreover from t have "distinct (map fst L)" by (simp add: tidy_def)
  ultimately have "distinct (map (join ''.'') (map fst L))"
    unfolding distinct_map [of "join ''.''"] by simp
  then show ?thesis by (simp add: flatOf_def comp_def)
qed

lemma written_empty: "written [] NewOptions"
  using descend_empty
  by (simp add: written_def NewOptions_def flatOf_def leafAt_def leafOf_VMap split: list.splits)

lemma written_step:
  assumes t: "tidy (L @ [(p, x)])" and w: "written L s"
  shows "written (L @ [(p, x)]) (SetNx (join ''.'' p) x s)"
proof -
  from t have df: "dotfree p" and leaf: "\<not> isStrMap x"
    and new: "p \<notin> fst ` set L"
    and pf: "\<And>q. q \<in> fst ` set L \<Longrightarrow> prefix p q \<or> prefix q p \<Longrightarrow> False"
    by (auto simp add: tidy_def)
  from t have ok: "\<And>q. q \<in> fst ` set L \<Longrightarrow> dotfree q"
    by (auto simp add: tidy_def)
  obtain k ks where p: "p = k # ks" using df by (cases p) (auto simp add: dotfree_def)
  have seg: "split_on CHR ''.'' (join ''.'' p) = k # ks"
    using segments_join [OF df] p by (simp add: segments_def)
  from w have J1: "\<And>q. leafAt (hierarchy s) q = map_of L q"
    and J2: "entries s = map_of (flatOf L)"
    and J3: "\<And>q. descend (hierarchy s) q \<noteq> None \<Longrightarrow> q = [] \<or> (\<exists>p \<in> fst ` set L. prefix q p)"
    by (auto simp add: written_def)
  have free: "descend (hierarchy s) (k # ks) = None"
  proof (rule ccontr)
    assume "descend (hierarchy s) (k # ks) \<noteq> None"
    from J3 [OF this] obtain p0 where "p0 \<in> fst ` set L" "prefix p p0"
      using p by auto
    then show False using pf by blast
  qed
  let ?h' = "mergeMap (hierarchy s) k (nest ks x)"
  let ?s' = "s\<lparr>entries := (entries s)(join ''.'' p \<mapsto> x), hierarchy := ?h'\<rparr>"
  have eq: "SetNx (join ''.'' p) x s = ?s'"
    using free by (simp add: SetNx_split [OF seg])
  have none: "map_of L p = None"
    using new by (simp add: map_of_eq_None_iff)
  have N1: "leafAt ?h' q = map_of (L @ [(p, x)]) q" for q
  proof (cases "q = p")
    case True
    then show ?thesis using leaf p none by (simp add: leafAt_insert map_add_def)
  next
    case False
    show ?thesis
    proof (cases "prefix q p \<or> prefix p q")
      case True
      then have "q \<notin> fst ` set L" using pf by blast
      then have "map_of L q = None" by (simp add: map_of_eq_None_iff)
      with True False leaf p show ?thesis
        by (auto simp add: leafAt_insert map_add_def)
    next
      case nc: False
      with False leaf p J1 [of q] show ?thesis
        by (auto simp add: leafAt_insert map_add_def split: option.splits)
    qed
  qed
  have fresh: "join ''.'' p \<notin> fst ` set (flatOf L)"
  proof
    assume "join ''.'' p \<in> fst ` set (flatOf L)"
    then obtain px where "px \<in> set L" and j': "join ''.'' (fst px) = join ''.'' p"
      by (auto simp add: flatOf_def)
    then obtain q where q: "q \<in> fst ` set L" and j: "join ''.'' q = join ''.'' p"
      by auto
    from ok [OF q] df j have "q = p" by (metis segments_join)
    with q new show False by simp
  qed
  have N2: "(entries s)(join ''.'' p \<mapsto> x) = map_of (flatOf (L @ [(p, x)]))"
  proof
    fix key
    have "map_of (flatOf L) (join ''.'' p) = None"
      using fresh by (simp add: map_of_eq_None_iff)
    then show "((entries s)(join ''.'' p \<mapsto> x)) key = map_of (flatOf (L @ [(p, x)])) key"
      by (auto simp add: J2 flatOf_def map_add_def split: option.splits)
  qed
  have N3: "q = [] \<or> (\<exists>p' \<in> fst ` set (L @ [(p, x)]). prefix q p')" if "descend ?h' q \<noteq> None" for q
    using descend_insert [OF leaf that] J3 [of q] p by auto
  show ?thesis
    unfolding eq written_def using N1 N2 N3 by simp
qed

lemma written_writes: "tidy L \<Longrightarrow> written L (writeAll (flatOf L) NewOptions)"
proof (induction L rule: rev_induct)
  case Nil
  then show ?case by (simp add: written_empty flatOf_def)
next
  case (snoc px L)
  obtain p x where px: "px = (p, x)" by (cases px)
  from snoc.prems have "tidy L" by (rule tidy_butlast)
  then have "written L (writeAll (flatOf L) NewOptions)" by (rule snoc.IH)
  from written_step [OF snoc.prems [unfolded px] this] show ?case
    by (simp add: writeAll_append px flatOf_def)
qed

subsection \<open>Round trip through the exported tree\<close>

lemma reingest_any:
  assumes st: "steady (ingested d)" and t: "distinctKeys (VMap t)"
    and same: "\<forall>q. leafAt t q = leafAt (hierarchy (loopMap [] d NewOptions)) q"
  shows "entries (loopMap [] t NewOptions) = entries (loopMap [] d NewOptions)"
proof -
  let ?s1 = "loopMap [] d NewOptions"
  let ?L = "leavesOf (VMap t)"
  have m1: "mirrored ?s1" using st by (rule steady_mirrored)
  have A: "(q, x) \<in> set ?L \<longleftrightarrow> dotfree q \<and> entries ?s1 (join ''.'' q) = Some x" for q x
  proof -
    have "(q, x) \<in> set ?L \<longleftrightarrow> leafAt t q = Some x"
      using leaves_iff [OF t] by (simp add: leafAt_def)
    also have "\<dots> \<longleftrightarrow> leafAt (hierarchy ?s1) q = Some x"
      using same by simp
    also have "\<dots> \<longleftrightarrow> dotfree q \<and> entries ?s1 (join ''.'' q) = Some x"
      using m1 by (simp add: mirrored_def)
    finally show ?thesis .
  qed
  have B: "\<not> isIxMap x \<and> \<not> isStrMap x \<and> \<not> leadingDot k" if "entries ?s1 k = Some x" for k x
  proof -
    from that have i: "(k, x) \<in> set (ingested d)" by (simp add: ingested_iff)
    with ingested_writes have "(k, x) \<in> set (writesOf [] d)" by blast
    with st i writes_not_IxMap(1) [of "(k, x)" "[]" d] show ?thesis
      unfolding steady_def by force
  qed
  have C: "dotfree (fst px) \<and> \<not> isIxMap (snd px) \<and> \<not> isStrMap (snd px) \<and> okStart (fst px)"
    if "px \<in> set ?L" for px
  proof -
    from that A [of "fst px" "snd px"]
    have df: "dotfree (fst px)" and e: "entries ?s1 (join ''.'' (fst px)) = Some (snd px)"
      by simp_all
    from B [OF e] have "\<not> leadingDot (join ''.'' (fst px))" by simp
    then have "okStart (segments (join ''.'' (fst px)))" by (rule okStart_segments)
    then have "okStart (fst px)" using df by (simp add: segments_join)
    with df B [OF e] show ?thesis by simp
  qed
  have pf: "p = q" if "p \<in> fst ` set ?L" "q \<in> fst ` set ?L" "prefix p q" for p q
  proof -
    from that obtain x y where "(p, x) \<in> set ?L" "(q, y) \<in> set ?L"
      by auto
    moreover from that obtain r where "q = p @ r"
      by (auto simp add: prefix_def)
    ultimately
    have "leafOf (VMap t) p = Some x" "leafOf (VMap t) (p @ r) = Some y"
      using leaves_iff [OF t] by auto
    then have "r = []" by (rule leafOf_prefix)
    with \<open>q = p @ r\<close> show ?thesis by simp
  qed
  have tidy: "tidy ?L"
    unfolding tidy_def using leaves_distinct [OF t] C pf by blast
  have "writesOf [] t = map (\<lambda>px. (foldl mx [] (fst px), snd px)) ?L"
    using C by (intro writes_leaves) blast
  also have "\<dots> = flatOf ?L"
    unfolding flatOf_def using C by (intro map_cong) (simp_all add: mxjoin)
  finally have w: "writesOf [] t = flatOf ?L" .
  have "written ?L (writeAll (flatOf ?L) NewOptions)"
    using tidy by (rule written_writes)
  then have e2: "entries (loopMap [] t NewOptions) = map_of (flatOf ?L)"
    by (simp add: loopMap_writes(1) w written_def)
  have dist: "distinct (map fst (flatOf ?L))" using tidy by (rule flatOf_distinct)
  have iff: "map_of (flatOf ?L) k = Some x \<longleftrightarrow> entries ?s1 k = Some x" for k x
  proof -
    have "map_of (flatOf ?L) k = Some x \<longleftrightarrow> (k, x) \<in> set (flatOf ?L)"
      using dist by simp
    also have "\<dots> \<longleftrightarrow> (\<exists>q. (q, x) \<in> set ?L \<and> join ''.'' q = k)"
      by (force simp add: flatOf_def)
    also have "\<dots> \<longleftrightarrow> (\<exists>q. dotfree q \<and> join ''.'' q = k \<and> entries ?s1 k = Some x)"
      using A by auto
    also have "\<dots> \<longleftrightarrow> entries ?s1 k = Some x"
      using dotfree_segments [of k] join_segments [of k] by blast
    finally show ?thesis .
  qed
  have "map_of (flatOf ?L) k = entries ?s1 k" for k
  proof (cases "entries ?s1 k")
    case None
    then show ?thesis using iff [of k] by (cases "map_of (flatOf ?L) k") auto
  next
    case (Some x)
    then show ?thesis using iff [of k x] by simp
  qed
  then show ?thesis unfolding e2 by blast
qed

lemma reexport_any:
  assumes st: "steady (ingested d)" and wf: "\<forall>kv \<in> set (writesOf [] d). distinctKeys (snd kv)"
  shows "entries (loopMap [] (GetHierarchyList (loopMap [] d NewOptions)) NewOptions)
         = entries (loopMap [] d NewOptions)"
proof -
  have "distinctKeys (VMap (hierarchy (writeAll (writesOf [] d) NewOptions)))"
    using wf by (intro distinctKeys_writeAll_any) (auto simp add: NewOptions_def)
  then have "distinctKeys (VMap (hierarchy (loopMap [] d NewOptions)))"
    by (simp add: loopMap_writes(1))
  from reingest_any [OF st this] show ?thesis by (simp add: GetHierarchyList_def)
qed

text \<open>
  C7, as stated, fails in three ways. In the document \<^verbatim>\<open>{"a": 1, "a.b": 2}\<close> one key
  continues another: both keys reach the flat map, while the tree keeps only what was
  written last at \<^verbatim>\<open>a\<close>, so the tree exported and ingested again yields a flat map without
  the other key, in whichever order the document is enumerated. In \<^verbatim>\<open>{".x": 1}\<close> the key
  begins with a dot: the tree holds \<^verbatim>\<open>x\<close> under the empty segment, and \<^verbatim>\<open>mx\<close> with an empty
  prefix yields the key \<^verbatim>\<open>x\<close> on the way back. In \<^verbatim>\<open>{"a": {"k": {"x": 1}}}\<close>, where the map at
  \<^verbatim>\<open>a\<close> is keyed by arbitrary values and the one at \<^verbatim>\<open>k\<close> by strings, \<^verbatim>\<open>loopIxMap\<close> writes the
  inner map as the value of \<^verbatim>\<open>a.k\<close>, and the way back yields \<^verbatim>\<open>a.k.x\<close> instead.
\<close>

theorem ingestion_round_trip_counterexample:
  "entries (loopMap [] [(''a'', VInt 1), (''a.b'', VInt 2)] NewOptions) ''a'' = Some (VInt 1)
   \<and> GetHierarchyList (loopMap [] [(''a'', VInt 1), (''a.b'', VInt 2)] NewOptions)
       = [(''a'', VMap [(''b'', VInt 2)])]
   \<and> entries (loopMap [] (GetHierarchyList (loopMap [] [(''a'', VInt 1), (''a.b'', VInt 2)] NewOptions))
        NewOptions) ''a'' = None
   \<and> entries (loopMap [] [(''a.b'', VInt 2), (''a'', VInt 1)] NewOptions) ''a.b'' = Some (VInt 2)
   \<and> entries (loopMap [] (GetHierarchyList (loopMap [] [(''a.b'', VInt 2), (''a'', VInt 1)] NewOptions))
        NewOptions) ''a.b'' = None
   \<and> entries (loopMap [] [(''.x'', VInt 1)] NewOptions) ''.x'' = Some (VInt 1)
   \<and> GetHierarchyList (loopMap [] [(''.x'', VInt 1)] NewOptions) = [('''', VMap [(''x'', VInt 1)])]
   \<and> entries (loopMap [] (GetHierarchyList (loopMap [] [(''.x'', VInt 1)] NewOptions)) NewOptions) ''.x''
       = None
   \<and> entries (loopMap [] (GetHierarchyList (loopMap [] [(''.x'', VInt 1)] NewOptions)) NewOptions) ''x''
       = Some (VInt 1)
   \<and> entries (loopMap [] [(''a'', VIxMap [(KStr ''k'', VMap [(''x'', VInt 1)])])] NewOptions) ''a.k''
       = Some (VMap [(''x'', VInt 1)])
   \<and> GetHierarchyList (loopMap [] [(''a'', VIxMap [(KStr ''k'', VMap [(''x'', VInt 1)])])] NewOptions)
       = [(''a'', VMap [(''k'', VMap [(''x'', VInt 1)])])]
   \<and> entries (loopMap []
        (GetHierarchyList (loopMap [] [(''a'', VIxMap [(KStr ''k'', VMap [(''x'', VInt 1)])])] NewOptions))
        NewOptions) ''a.k'' = None
   \<and> entries (loopMap []
        (GetHierarchyList (loopMap [] [(''a'', VIxMap [(KStr ''k'', VMap [(''x'', VInt 1)])])] NewOptions))
        NewOptions) ''a.k.x'' = Some (VInt 1)"
  by code_simp

lemma owner_example:
  "Get (loopMap [] [(''owner'', VMap [(''name'', VStr ''Tom''), (''org'', VStr ''GitHub'')])] NewOptions)
      ''owner.name'' = VStr ''Tom''
   \<and> GetMap (loopMap [] [(''owner'', VMap [(''name'', VStr ''Tom''), (''org'', VStr ''GitHub'')])] NewOptions)
      ''owner'' = Some [(''name'', VStr ''Tom''), (''org'', VStr ''GitHub'')]
   \<and> Get (loopMap [] [(''owner'', VMap [(''org'', VStr ''GitHub''), (''name'', VStr ''Tom'')])] NewOptions)
      ''owner.name'' = VStr ''Tom''
   \<and> GetMap (loopMap [] [(''owner'', VMap [(''org'', VStr ''GitHub''), (''name'', VStr ''Tom'')])] NewOptions)
      ''owner'' = Some [(''org'', VStr ''GitHub''), (''name'', VStr ''Tom'')]
   \<and> Get (loopMap [] [(''owner'', VIxMap [(KStr ''name'', VStr ''Tom''), (KStr ''org'', VStr ''GitHub'')])]
          NewOptions) ''owner.name'' = VStr ''Tom''
   \<and> GetMap (loopMap [] [(''owner'', VIxMap [(KStr ''name'', VStr ''Tom''), (KStr ''org'', VStr ''GitHub'')])]
          NewOptions) ''owner'' = Some [(''name'', VStr ''Tom''), (''org'', VStr ''GitHub'')]
   \<and> Get (loopMapMap [] [(''owner'', [(''name'', VStr ''Tom''), (''org'', VStr ''GitHub'')])] NewOptions)
      ''owner.name'' = VStr ''Tom''
   \<and> GetMap (loopMapMap [] [(''owner'', [(''name'', VStr ''Tom''), (''org'', VStr ''GitHub'')])] NewOptions)
      ''owner'' = Some [(''name'', VStr ''Tom''), (''org'', VStr ''GitHub'')]"
  by code_simp

text \<open>
  C7, amended. Ingesting the document \<^verbatim>\<open>{owner: {name: "Tom", org: "GitHub"}}\<close> into a new
  store yields \<^verbatim>\<open>Get("owner.name") == "Tom"\<close> and a map at \<^verbatim>\<open>owner\<close> with both keys, whether
  the inner map is keyed by strings or by arbitrary values. Ingesting a document makes the
  calls of \<^verbatim>\<open>SetNx\<close> that \<open>writesOf\<close> lists, and the entries of the flat map afterwards are
  those of \<open>ingested\<close>. When the flat map of the store so populated holds no map keyed by
  strings as a value, no key that begins with a dot and no two keys that conflict, the tree
  exported by \<^verbatim>\<open>GetHierarchyList\<close> and ingested into a new store gives the same flat map.
  This holds for the tree as the model lists it, where no map written as a value holds a
  key twice (no Go map does), and for every tree without repeated keys that has the same
  leaves, so for every order of enumeration.
\<close>

theorem ingestion_round_trip:
  "Get (loopMap [] [(''owner'', VMap [(''name'', VStr ''Tom''), (''org'', VStr ''GitHub'')])] NewOptions)
      ''owner.name'' = VStr ''Tom''
   \<and> GetMap (loopMap [] [(''owner'', VMap [(''name'', VStr ''Tom''), (''org'', VStr ''GitHub'')])] NewOptions)
      ''owner'' = Some [(''name'', VStr ''Tom''), (''org'', VStr ''GitHub'')]
   \<and> Get (loopMap [] [(''owner'', VMap [(''org'', VStr ''GitHub''), (''name'', VStr ''Tom'')])] NewOptions)
      ''owner.name'' = VStr ''Tom''
   \<and> GetMap (loopMap [] [(''owner'', VMap [(''org'', VStr ''GitHub''), (''name'', VStr ''Tom'')])] NewOptions)
      ''owner'' = Some [(''org'', VStr ''GitHub''), (''name'', VStr ''Tom'')]
   \<and> Get (loopMap [] [(''owner'', VIxMap [(KStr ''name'', VStr ''Tom''), (KStr ''org'', VStr ''GitHub'')])]
          NewOptions) ''owner.name'' = VStr ''Tom''
   \<and> GetMap (loopMap [] [(''owner'', VIxMap [(KStr ''name'', VStr ''Tom''), (KStr ''org'', VStr ''GitHub'')])]
          NewOptions) ''owner'' = Some [(''name'', VStr ''Tom''), (''org'', VStr ''GitHub'')]
   \<and> Get (loopMapMap [] [(''owner'', [(''name'', VStr ''Tom''), (''org'', VStr ''GitHub'')])] NewOptions)
      ''owner.name'' = VStr ''Tom''
   \<and> GetMap (loopMapMap [] [(''owner'', [(''name'', VStr ''Tom''), (''org'', VStr ''GitHub'')])] NewOptions)
      ''owner'' = Some [(''name'', VStr ''Tom''), (''org'', VStr ''GitHub'')]
   \<and> loopMap [] d NewOptions = writeAll (writesOf [] d) NewOptions
   \<and> ((k, x) \<in> set (ingested d) \<longleftrightarrow> entries (loopMap [] d NewOptions) k = Some x)
   \<and> (steady (ingested d) \<and> list_all (\<lambda>kv. distinctKeys (snd kv)) (writesOf [] d) \<longrightarrow>
        entries (loopMap [] (GetHierarchyList (loopMap [] d NewOptions)) NewOptions)
          = entries (loopMap [] d NewOptions))
   \<and> (steady (ingested d) \<and> distinctKeys (VMap t)
        \<and> (\<forall>q. leafAt t q = leafAt (GetHierarchyList (loopMap [] d NewOptions)) q) \<longrightarrow>
        entries (loopMap [] t NewOptions) = entries (loopMap [] d NewOptions))"
proof (intro conjI impI)
  show "loopMap [] d NewOptions = writeAll (writesOf [] d) NewOptions"
    by (rule loopMap_writes)
next
  show "(k, x) \<in> set (ingested d) \<longleftrightarrow> entries (loopMap [] d NewOptions) k = Some x"
    by (rule ingested_iff)
next
  assume "steady (ingested d) \<and> list_all (\<lambda>kv. distinctKeys (snd kv)) (writesOf [] d)"
  then show "entries (loopMap [] (GetHierarchyList (loopMap [] d NewOptions)) NewOptions)
       = entries (loopMap [] d NewOptions)"
    by (intro reexport_any) (simp_all add: list_all_iff)
next
  assume "steady (ingested d) \<and> distinctKeys (VMap t)
        \<and> (\<forall>q. leafAt t q = leafAt (GetHierarchyList (loopMap [] d NewOptions)) q)"
  then show "entries (loopMap [] t NewOptions) = entries (loopMap [] d NewOptions)"
    by (intro reingest_any) (simp_all add: GetHierarchyList_def)
qed (use owner_example in simp_all)

theorem ingestion_round_trip_witness:
  "entries (loopMap []
      (GetHierarchyList (loopMap []
         [(''owner'', VIxMap [(KStr ''name'', VStr ''Tom''), (KInt 7, VStr ''GitHub'')]),
          (''a.b'', VInt 2), (''a'', VNil), (''c'', VMap [('''', VInt 1)]), (''title'', VNil)]
         NewOptions)) NewOptions)
    = entries (loopMap []
         [(''owner'', VIxMap [(KStr ''name'', VStr ''Tom''), (KInt 7, VStr ''GitHub'')]),
          (''a.b'', VInt 2), (''a'', VNil), (''c'', VMap [('''', VInt 1)]), (''title'', VNil)]
         NewOptions)
   \<and> entries (loopMap []
         [(''title'', VNil), (''c'', VMap [('''', VInt 1)]), (''a'', VMap [(''b'', VInt 2)]),
          (''owner'', VMap [(''7'', VStr ''GitHub''), (''name'', VStr ''Tom'')])]
         NewOptions)
    = entries (loopMap []
         [(''owner'', VIxMap [(KStr ''name'', VStr ''Tom''), (KInt 7, VStr ''GitHub'')]),
          (''a.b'', VInt 2), (''a'', VNil), (''c'', VMap [('''', VInt 1)]), (''title'', VNil)]
         NewOptions)
   \<and> entries (loopMap []
         [(''owner'', VIxMap [(KStr ''name'', VStr ''Tom''), (KInt 7, VStr ''GitHub'')]),
          (''a.b'', VInt 2), (''a'', VNil), (''c'', VMap [('''', VInt 1)]), (''title'', VNil)]
         NewOptions) ''owner.7'' = Some (VStr ''GitHub'')
   \<and> entries (loopMap []
         [(''owner'', VIxMap [(KStr ''name'', VStr ''Tom''), (KInt 7, VStr ''GitHub'')]),
          (''a.b'', VInt 2), (''a'', VNil), (''c'', VMap [('''', VInt 1)]), (''title'', VNil)]
         NewOptions) ''c.'' = Some (VInt 1)
   \<and> entries (loopMap []
         [(''owner'', VIxMap [(KStr ''name'', VStr ''Tom''), (KInt 7, VStr ''GitHub'')]),
          (''a.b'', VInt 2), (''a'', VNil), (''c'', VMap [('''', VInt 1)]), (''title'', VNil)]
         NewOptions) ''a'' = None"
proof -
  let ?d = "[(''owner'', VIxMap [(KStr ''name'', VStr ''Tom''), (KInt 7, VStr ''GitHub'')]),
          (''a.b'', VInt 2), (''a'', VNil), (''c'', VMap [('''', VInt 1)]), (''title'', VNil)]"
  let ?h = "[(''owner'', VMap [(''name'', VStr ''Tom''), (''7'', VStr ''GitHub'')]),
          (''a'', VMap [(''b'', VInt 2)]), (''c'', VMap [('''', VInt 1)]), (''title'', VNil)]"
  let ?t = "[(''title'', VNil), (''c'', VMap [('''', VInt 1)]), (''a'', VMap [(''b'', VInt 2)]),
          (''owner'', VMap [(''7'', VStr ''GitHub''), (''name'', VStr ''Tom'')])]"
  have sd: "steady (ingested ?d)" and pt: "distinctKeys (VMap ?t)"
    and wf: "list_all (\<lambda>kv. distinctKeys (snd kv)) (writesOf [] ?d)"
    by code_simp+
  have h: "GetHierarchyList (loopMap [] ?d NewOptions) = ?h"
    by code_simp
  have same: "leafAt ?t q = leafAt (GetHierarchyList (loopMap [] ?d NewOptions)) q" for q
  proof (cases q)
    case Nil
    then show ?thesis by (simp add: leafAt_def leafOf_VMap)
  next
    case (Cons k q')
    then show ?thesis
      unfolding h by (cases q') (auto simp add: leafAt_Cons leafOf_VMap leafOf_leaf)
  qed
  have e: "entries (loopMap [] ?d NewOptions) ''owner.7'' = Some (VStr ''GitHub'')"
    and f: "entries (loopMap [] ?d NewOptions) ''c.'' = Some (VInt 1)"
    and g: "entries (loopMap [] ?d NewOptions) ''a'' = None"
    by code_simp+
  have 1: "entries (loopMap [] (GetHierarchyList (loopMap [] ?d NewOptions)) NewOptions)
           = entries (loopMap [] ?d NewOptions)"
    using ingestion_round_trip [where d = ?d] sd wf by blast
  have 2: "entries (loopMap [] ?t NewOptions) = entries (loopMap [] ?d NewOptions)"
    using ingestion_round_trip [where d = ?d and t = ?t] sd pt same by blast
  from 1 2 e f g show ?thesis by simp
qed

subsection \<open>Sections that are absent\<close>

lemma GetMap_descend:
  "GetMap s key = None \<longleftrightarrow> descend (hierarchy s) (segments key) = None"
proof -
  obtain k ks where sp: "segments key = k # ks"
    using dotfree_segments [of key] by (cases "segments key") (auto simp: dotfree_def)
  then have "GetMap s key = getMap (hierarchy s) k ks"
    by (simp add: GetMap_def getMapNoLock_split segments_def)
  then show ?thesis
    using getMap_descend [of "hierarchy s" k ks] sp by auto
qed

text \<open>
  C10. The hierarchy lookup of a section path yields the nil map exactly when the descent
  through the segments of the wrapped path fails: a segment is missing, or the descent
  meets a leaf before the path ends. In that case \<^verbatim>\<open>GetSectionFrom\<close> returns the nil error
  and the holder as it was given, whatever the marshaller and the unmarshaller would have
  done.
\<close>

theorem GetSectionFrom_absent:
  "(GetMapR rp s sectionKeyPath = None \<longleftrightarrow>
      descend (hierarchy s) (segments (wrapWithRxxtPrefix rp sectionKeyPath)) = None)
   \<and> (GetMapR rp s sectionKeyPath = None \<longrightarrow>
      GetSectionFrom marshal unmarshal rp s sectionKeyPath holder = (None, holder))"
proof (intro conjI impI)
  show "GetMapR rp s sectionKeyPath = None \<longleftrightarrow>
      descend (hierarchy s) (segments (wrapWithRxxtPrefix rp sectionKeyPath)) = None"
    by (simp add: GetMapR_def GetMap_descend)
next
  assume "GetMapR rp s sectionKeyPath = None"
  then show "GetSectionFrom marshal unmarshal rp s sectionKeyPath holder = (None, holder)"
    by (simp add: GetSectionFrom_def)
qed

theorem GetSectionFrom_absent_witness:
  "GetMapR [''app''] (Set [''app''] ''debug'' (VBool True) NewOptions) ''server'' = None \<and>
   GetSectionFrom (\<lambda>m. Inl ''marshal fails'') (\<lambda>b h. (Some ''unmarshal fails'', h + 1))
     [''app''] (Set [''app''] ''debug'' (VBool True) NewOptions) ''server'' (7 :: nat) = (None, 7)"
proof -
  let ?s = "Set [''app''] ''debug'' (VBool True) NewOptions"
  have h: "descend (hierarchy ?s) (segments (wrapWithRxxtPrefix [''app''] ''server'')) = None"
    by code_simp
  note t = GetSectionFrom_absent [of "[''app'']" ?s "''server''"
        "\<lambda>m. Inl ''marshal fails''" "\<lambda>b h. (Some ''unmarshal fails'', h + 1)" "7 :: nat"]
  from t h have g: "GetMapR [''app''] ?s ''server'' = None"
    by blast
  from t g have "GetSectionFrom (\<lambda>m. Inl ''marshal fails'') (\<lambda>b h. (Some ''unmarshal fails'', h + 1))
     [''app''] ?s ''server'' (7 :: nat) = (None, 7)"
    by blast
  with g show ?thesis by simp
qed

subsection \<open>The guard of SetNx against nil\<close>

lemma SetNx_nil_noop:
  "SetNx key VNil s = s \<longleftrightarrow> descend (hierarchy s) (segments key) \<noteq> None"
proof -
  obtain k ks where sp: "segments key = k # ks"
    using dotfree_segments [of key] by (cases "segments key") (auto simp: dotfree_def)
  then have sp': "split_on CHR ''.'' key = k # ks" by (simp add: segments_def)
  show ?thesis
  proof (cases "descend (hierarchy s) (k # ks) = None")
    case False
    then show ?thesis using sp by (simp add: SetNx_split [OF sp'])
  next
    case True
    let ?h' = "mergeMap (hierarchy s) k (nest ks VNil)"
    have "leafAt ?h' (k # ks) = Some VNil" by (simp add: leafAt_insert)
    then have "descend ?h' (k # ks) \<noteq> None" by (simp add: leafAt_descend)
    with True have "?h' \<noteq> hierarchy s" by auto
    then have "SetNx key VNil s \<noteq> s"
      using True by (auto simp add: SetNx_split [OF sp'] dest: arg_cong [where f = hierarchy])
    with True sp show ?thesis by simp
  qed
qed

text \<open>
  C2. A nil written with \<^verbatim>\<open>SetNx\<close> leaves the store as it was exactly when the descent
  through the segments of the key reaches a node, be it a branch or a leaf: the guard asks
  \<^verbatim>\<open>getMapNoLock\<close> for the map at the key, and that function answers with the parent map
  when the key holds a leaf. A nil written over the leaf \<^verbatim>\<open>a\<close> is therefore dropped and
  \<^verbatim>\<open>a\<close> still holds 1.
\<close>

theorem SetNx_nil_over_leaf:
  "(SetNx key VNil s = s \<longleftrightarrow> descend (hierarchy s) (segments key) \<noteq> None)
   \<and> descend (hierarchy (SetNx ''a'' (VInt 1) NewOptions)) (segments ''a'') = Some (VInt 1)
   \<and> getMapNoLock (SetNx ''a'' (VInt 1) NewOptions) ''a'' = Some [(''a'', VInt 1)]
   \<and> SetNx ''a'' VNil (SetNx ''a'' (VInt 1) NewOptions) = SetNx ''a'' (VInt 1) NewOptions
   \<and> entries (SetNx ''a'' VNil (SetNx ''a'' (VInt 1) NewOptions)) ''a'' = Some (VInt 1)"
proof -
  have d: "descend (hierarchy (SetNx ''a'' (VInt 1) NewOptions)) (segments ''a'') = Some (VInt 1)"
    by code_simp
  have g: "getMapNoLock (SetNx ''a'' (VInt 1) NewOptions) ''a'' = Some [(''a'', VInt 1)]"
    by code_simp
  have e: "entries (SetNx ''a'' (VInt 1) NewOptions) ''a'' = Some (VInt 1)"
    by code_simp
  have n: "SetNx ''a'' VNil (SetNx ''a'' (VInt 1) NewOptions) = SetNx ''a'' (VInt 1) NewOptions"
    using d by (simp add: SetNx_nil_noop)
  have e': "entries (SetNx ''a'' VNil (SetNx ''a'' (VInt 1) NewOptions)) ''a'' = Some (VInt 1)"
    using n e by simp
  show ?thesis
    by (intro conjI) (rule SetNx_nil_noop d g n e')+
qed

end
